theory Spec2Isabelle
  imports Main
begin

section \<open>Randomness\<close>

text \<open>
  The three scripts draw from Python's global \<^verbatim>\<open>random\<close> generator, which is never
  seeded. The model makes the generator an explicit argument: a stream of natural
  numbers, one per elementary draw, threaded through every call in the order in which
  the source evaluates them. A draw from a population of \<open>n\<close> values reduces the head of
  the stream modulo \<open>n\<close>, so every sequence of outcomes the real generator can produce is
  the image of some stream, and a statement quantified over all streams covers them all.
\<close>

type_synonym rng = "nat \<Rightarrow> nat"

definition next_raw :: "rng \<Rightarrow> nat \<times> rng" where
  "next_raw g = (g 0, (\<lambda>n. g (Suc n)))"

text \<open>\<^verbatim>\<open>random.choice(seq)\<close>; every sequence the scripts pass is a non-empty literal.\<close>

definition random_choice :: "'a list \<Rightarrow> rng \<Rightarrow> 'a \<times> rng" where
  "random_choice seq g = (case next_raw g of (r, g1) \<Rightarrow> (seq ! (r mod length seq), g1))"

text \<open>\<^verbatim>\<open>random.randint(a, b)\<close>: an integer of the closed range \<open>[a, b]\<close>.\<close>

definition random_randint :: "int \<Rightarrow> int \<Rightarrow> rng \<Rightarrow> int \<times> rng" where
  "random_randint a b g = (case next_raw g of (r, g1) \<Rightarrow> (a + int r mod (b - a + 1), g1))"

text \<open>\<^verbatim>\<open>random.choices(population, k=k)\<close>: \<open>k\<close> draws with replacement, left to right.\<close>

fun random_choices :: "'a list \<Rightarrow> nat \<Rightarrow> rng \<Rightarrow> 'a list \<times> rng" where
  "random_choices population 0 g = ([], g)"
| "random_choices population (Suc k) g =
     (case random_choice population g of (x, g1) \<Rightarrow>
        (case random_choices population k g1 of (xs, g2) \<Rightarrow> (x # xs, g2)))"

text \<open>\<^verbatim>\<open>string.ascii_letters\<close> and \<^verbatim>\<open>string.digits\<close>.\<close>

definition ascii_letters :: string where
  "ascii_letters = ''abcdefghijklmnopqrstuvwxyzABCDEFGHIJKLMNOPQRSTUVWXYZ''"

definition digits :: string where
  "digits = ''0123456789''"

section \<open>Files\<close>

text \<open>
  A \<^typ>\<open>string\<close> is a list of 8-bit characters. As a Python \<^verbatim>\<open>str\<close> each character is
  the code point of the same number; as file contents each character is one byte.
  \<open>encode_utf8\<close> is \<^verbatim>\<open>str.encode('utf-8')\<close> on such code points: one byte below 128, two
  bytes from 128 on. The file system maps a path to the bytes stored under it. Text
  files are written as on a POSIX system with a UTF-8 locale: no newline translation.
  Failures of the file system itself (permissions, a full disk) are outside the model.
\<close>

definition encode_utf8 :: "string \<Rightarrow> string" where
  "encode_utf8 s = concat (map (\<lambda>c. if (of_char c :: nat) < 128 then [c]
       else [char_of (192 + (of_char c :: nat) div 64),
             char_of (128 + (of_char c :: nat) mod 64)]) s)"

text \<open>Every character is below 128.\<close>

definition is_ascii :: "string \<Rightarrow> bool" where
  "is_ascii s = list_all (\<lambda>c. (of_char c :: nat) < 128) s"

type_synonym filesystem = "string \<rightharpoonup> string"

text \<open>The bytes a text file holds once these strings have been written to it, in order.\<close>

definition file_bytes :: "string list \<Rightarrow> string" where
  "file_bytes ws = concat (map encode_utf8 ws)"

text \<open>\<^verbatim>\<open>os.path.getsize(path)\<close>, \<open>None\<close> where the path does not exist.\<close>

definition getsize :: "filesystem \<Rightarrow> string \<Rightarrow> nat option" where
  "getsize fs path = map_option length (fs path)"

section \<open>The exact-size text file generator (scripts/generate\_large\_file.py)\<close>

text \<open>
  The state of the write loop: the strings passed to \<^verbatim>\<open>f.write\<close> so far (oldest first),
  the local \<^verbatim>\<open>bytes_written\<close>, the local \<^verbatim>\<open>remaining_bytes\<close> (unbound until the overshoot
  branch assigns it) and the random generator.
\<close>

record loop_state =
  written :: "string list"
  bytes_written :: int
  remaining_bytes :: "int option"
  gen :: rng

text \<open>How the \<^verbatim>\<open>while\<close> loop was left: its guard was false, or \<^verbatim>\<open>break\<close> was executed.\<close>

datatype loop_exit = Guard_False | Break

definition chunk_size :: int where
  "chunk_size = 1024"

text \<open>The population of the reusable chunk (line 16) and of the last chunk (line 27).\<close>

definition chunk_population :: string where
  "chunk_population = ascii_letters @ digits @ [CHR '' '', CHR 0x0A]"

definition last_chunk_population :: string where
  "last_chunk_population = ascii_letters @ digits @ '' ''"

text \<open>
  One execution of the loop body (lines 21 to 29). The flag tells whether \<^verbatim>\<open>break\<close> was
  reached.
\<close>

definition loop_body :: "int \<Rightarrow> string \<Rightarrow> loop_state \<Rightarrow> bool \<times> loop_state" where
  "loop_body size_in_bytes random_text_chunk s =
     (let s1 = s\<lparr>written := written s @ [random_text_chunk],
                 bytes_written :=
                   bytes_written s + int (length (encode_utf8 random_text_chunk))\<rparr>
      in if bytes_written s1 + chunk_size > size_in_bytes then
           (let r = size_in_bytes - bytes_written s1;
                s2 = s1\<lparr>remaining_bytes := Some r\<rparr>
            in if r > 0 then
                 (case random_choices last_chunk_population (nat r) (gen s2) of
                    (last_chunk, g1) \<Rightarrow>
                      (True, s2\<lparr>written := written s2 @ [last_chunk], gen := g1\<rparr>))
               else (True, s2))
         else (False, s1))"

text \<open>The \<^verbatim>\<open>while\<close> loop (line 20). \<open>None\<close> is a loop that never returns.\<close>

partial_function (option) write_loop ::
  "int \<Rightarrow> string \<Rightarrow> loop_state \<Rightarrow> (loop_exit \<times> loop_state) option" where
  "write_loop size_in_bytes random_text_chunk s =
     (if bytes_written s < size_in_bytes then
        (case loop_body size_in_bytes random_text_chunk s of
           (brk, s1) \<Rightarrow>
             if brk then Some (Break, s1)
             else write_loop size_in_bytes random_text_chunk s1)
      else Some (Guard_False, s))"

declare write_loop.simps [code]

text \<open>
  The state in which the loop guard is evaluated for the \<open>k+1\<close>-th time, \<open>None\<close> when the
  loop has been left before.
\<close>

primrec loop_head :: "int \<Rightarrow> string \<Rightarrow> nat \<Rightarrow> loop_state \<Rightarrow> loop_state option" where
  "loop_head size_in_bytes random_text_chunk 0 s = Some s"
| "loop_head size_in_bytes random_text_chunk (Suc k) s =
     (if bytes_written s < size_in_bytes then
        (case loop_body size_in_bytes random_text_chunk s of
           (brk, s1) \<Rightarrow>
             if brk then None else loop_head size_in_bytes random_text_chunk k s1)
      else None)"

text \<open>The locals as the loop is entered (line 19), after the chunk has been drawn.\<close>

definition initial_state :: "rng \<Rightarrow> loop_state" where
  "initial_state g = \<lparr>written = [], bytes_written = 0, remaining_bytes = None, gen = g\<rparr>"

text \<open>The draw of the reusable chunk (line 16).\<close>

definition draw_chunk :: "rng \<Rightarrow> string \<times> rng" where
  "draw_chunk g = random_choices chunk_population (nat chunk_size) g"

text \<open>
  \<^verbatim>\<open>generate_large_file(file_path, size_in_mb)\<close>. The result is the file system after
  the file has been closed, together with the exit taken and the final locals. The
  closing \<^verbatim>\<open>print\<close> is not modelled.
\<close>

definition generate_large_file ::
  "filesystem \<Rightarrow> string \<Rightarrow> int \<Rightarrow> rng \<Rightarrow> (filesystem \<times> loop_exit \<times> loop_state) option" where
  "generate_large_file fs file_path size_in_mb g =
     (let size_in_bytes = size_in_mb * 1024 * 1024 in
      case draw_chunk g of
        (random_text_chunk, g1) \<Rightarrow>
          (case write_loop size_in_bytes random_text_chunk (initial_state g1) of
             None \<Rightarrow> None
           | Some (ex, s) \<Rightarrow>
               Some (fs(file_path \<mapsto> file_bytes (written s)), ex, s)))"

text \<open>
  Two abbreviations for the proofs: the state after \<open>k\<close> more full chunks, and the state
  in which the loop is left by \<^verbatim>\<open>break\<close> after \<open>q\<close> full chunks with \<open>r\<close> bytes remaining.
\<close>

definition add_chunks :: "string \<Rightarrow> nat \<Rightarrow> loop_state \<Rightarrow> loop_state" where
  "add_chunks c k s =
     s\<lparr>written := written s @ replicate k c,
       bytes_written := bytes_written s + int k * chunk_size\<rparr>"

definition final_state :: "string \<Rightarrow> int \<Rightarrow> int \<Rightarrow> loop_state \<Rightarrow> loop_state" where
  "final_state c q r s =
     (if 0 < r then
        s\<lparr>written := written s @ replicate (nat q) c @
                      [fst (random_choices last_chunk_population (nat r) (gen s))],
          bytes_written := q * chunk_size,
          remaining_bytes := Some r,
          gen := snd (random_choices last_chunk_population (nat r) (gen s))\<rparr>
      else
        s\<lparr>written := written s @ replicate (nat q) c,
          bytes_written := q * chunk_size,
          remaining_bytes := Some r\<rparr>)"

text \<open>A fixed stream of draws, for concrete runs.\<close>

definition example_stream :: rng where
  "example_stream n = 7 * n + 3"

section \<open>Python strings\<close>

text \<open>\<^verbatim>\<open>str(n)\<close> for an integer: its decimal digits, with a minus sign below zero.\<close>

fun str_nat :: "nat \<Rightarrow> string" where
  "str_nat n =
     (if n < 10 then [digits ! n] else str_nat (n div 10) @ [digits ! (n mod 10)])"

declare str_nat.simps [simp del]

definition str_int :: "int \<Rightarrow> string" where
  "str_int i = (if i < 0 then CHR ''-'' # str_nat (nat (- i)) else str_nat (nat i))"

text \<open>
  \<^verbatim>\<open>str.title()\<close> on ASCII text, the only text the script applies it to: going through
  the string, a character that follows a cased character (a letter) is lower-cased and
  any other character is title-cased, which for an ASCII letter is upper-casing; a
  character that is not a letter is left as it is.
\<close>

definition is_cased :: "char \<Rightarrow> bool" where
  "is_cased c = ((65 \<le> (of_char c :: nat) \<and> (of_char c :: nat) \<le> 90) \<or>
                 (97 \<le> (of_char c :: nat) \<and> (of_char c :: nat) \<le> 122))"

definition upper_char :: "char \<Rightarrow> char" where
  "upper_char c =
     (if 97 \<le> (of_char c :: nat) \<and> (of_char c :: nat) \<le> 122
      then char_of ((of_char c :: nat) - 32) else c)"

definition lower_char :: "char \<Rightarrow> char" where
  "lower_char c =
     (if 65 \<le> (of_char c :: nat) \<and> (of_char c :: nat) \<le> 90
      then char_of ((of_char c :: nat) + 32) else c)"

fun title_from :: "bool \<Rightarrow> string \<Rightarrow> string" where
  "title_from previous_is_cased [] = []"
| "title_from previous_is_cased (c # cs) =
     (if previous_is_cased then lower_char c else upper_char c) # title_from (is_cased c) cs"

definition title :: "string \<Rightarrow> string" where
  "title s = title_from False s"

text \<open>\<^verbatim>\<open>sep.join(xs)\<close>.\<close>

fun join :: "'a list \<Rightarrow> 'a list list \<Rightarrow> 'a list" where
  "join sep [] = []"
| "join sep [x] = x"
| "join sep (x # y # ys) = x @ sep @ join sep (y # ys)"

section \<open>The CSV fixture generator (generate\_large\_csv.py)\<close>

definition random_string :: "nat \<Rightarrow> rng \<Rightarrow> string \<times> rng" where
  "random_string len g = random_choices (ascii_letters @ digits) len g"

definition random_email :: "rng \<Rightarrow> string \<times> rng" where
  "random_email g =
     (case random_string 8 g of (username, g1) \<Rightarrow>
      case random_choice [''gmail.com'', ''yahoo.com'', ''outlook.com'', ''company.com''] g1 of
        (domain, g2) \<Rightarrow> (username @ ''@'' @ domain, g2))"

definition random_phone :: "rng \<Rightarrow> string \<times> rng" where
  "random_phone g =
     (case random_randint 100 999 g of (a, g1) \<Rightarrow>
      case random_randint 100 999 g1 of (b, g2) \<Rightarrow>
      case random_randint 1000 9999 g2 of (c, g3) \<Rightarrow>
        (''+1-'' @ str_int a @ ''-'' @ str_int b @ ''-'' @ str_int c, g3))"

text \<open>
  The values of a row dictionary are integers and strings. A dictionary is the list of
  its items in insertion order.
\<close>

datatype pyval = PyInt int | PyStr string

type_synonym rowdict = "(string \<times> pyval) list"

definition fieldnames :: "string list" where
  "fieldnames = [''id'', ''name'', ''email'', ''phone'', ''age'', ''city'', ''country'',
                 ''department'', ''salary'', ''active'']"

definition cities :: "string list" where
  "cities = [''New York'', ''Los Angeles'', ''Chicago'', ''Houston'', ''Phoenix'',
             ''Philadelphia'', ''San Antonio'', ''San Diego'', ''Dallas'', ''San Jose'',
             ''Austin'', ''Jacksonville'']"

definition countries :: "string list" where
  "countries = [''USA'', ''Canada'', ''UK'', ''Germany'', ''France'', ''Japan'',
                ''Australia'', ''Brazil'']"

definition departments :: "string list" where
  "departments = [''Engineering'', ''Marketing'', ''Sales'', ''HR'', ''Finance'',
                  ''Operations'', ''Legal'', ''IT'']"

text \<open>
  The dictionary literal of lines 40 to 51; its values are evaluated top to bottom, and
  within the f-string of \<open>name\<close> left to right.
\<close>

definition make_row :: "int \<Rightarrow> rng \<Rightarrow> rowdict \<times> rng" where
  "make_row i g =
     (case random_string 6 g of (first, g1) \<Rightarrow>
      case random_string 8 g1 of (second, g2) \<Rightarrow>
      case random_email g2 of (email, g3) \<Rightarrow>
      case random_phone g3 of (phone, g4) \<Rightarrow>
      case random_randint 22 65 g4 of (age, g5) \<Rightarrow>
      case random_choice cities g5 of (city, g6) \<Rightarrow>
      case random_choice countries g6 of (country, g7) \<Rightarrow>
      case random_choice departments g7 of (department, g8) \<Rightarrow>
      case random_randint 30000 150000 g8 of (salary, g9) \<Rightarrow>
      case random_choice [''true'', ''false''] g9 of (active, g10) \<Rightarrow>
        ([(''id'', PyInt i),
          (''name'', PyStr (title first @ '' '' @ title second)),
          (''email'', PyStr email),
          (''phone'', PyStr phone),
          (''age'', PyInt age),
          (''city'', PyStr city),
          (''country'', PyStr country),
          (''department'', PyStr department),
          (''salary'', PyInt salary),
          (''active'', PyStr active)], g10))"

subsection \<open>The writer: \<^verbatim>\<open>csv.DictWriter\<close> with the default dialect\<close>

text \<open>
  The default dialect: delimiter comma, quote character \<open>"\<close>, doubled quotes, minimal
  quoting, line terminator CR LF. A field is quoted when it contains the delimiter, the
  quote character or a character of the line terminator. A value that is not a string
  is written as \<^verbatim>\<open>str\<close> of it.
\<close>

datatype error = ValueError

definition csv_str :: "pyval \<Rightarrow> string" where
  "csv_str v = (case v of PyInt i \<Rightarrow> str_int i | PyStr s \<Rightarrow> s)"

definition special_chars :: string where
  "special_chars = [CHR '','', CHR 0x22, CHR 0x0D, CHR 0x0A]"

definition quote_field :: "string \<Rightarrow> string" where
  "quote_field s =
     (if list_ex (\<lambda>c. c \<in> set special_chars) s
      then [CHR 0x22] @ concat (map (\<lambda>c. if c = CHR 0x22 then [c, c] else [c]) s) @ [CHR 0x22]
      else s)"

definition lineterminator :: string where
  "lineterminator = [CHR 0x0D, CHR 0x0A]"

text \<open>
  \<^verbatim>\<open>DictWriter._dict_to_list\<close>: a key outside the field names raises \<^verbatim>\<open>ValueError\<close>
  (\<^verbatim>\<open>extrasaction='raise'\<close>); a field name the dictionary lacks yields the empty
  string (\<^verbatim>\<open>restval=''\<close>).
\<close>

definition dict_to_list :: "rowdict \<Rightarrow> error + pyval list" where
  "dict_to_list row =
     (if list_ex (\<lambda>k. k \<notin> set fieldnames) (map fst row) then Inl ValueError
      else Inr (map (\<lambda>key. case map_of row key of None \<Rightarrow> PyStr [] | Some v \<Rightarrow> v)
                  fieldnames))"

text \<open>
  \<^verbatim>\<open>writer.writerow(row)\<close>: one record, appended to the text of the open file.
\<close>

definition writerow :: "string \<Rightarrow> rowdict \<Rightarrow> error + string" where
  "writerow csvfile row =
     (case dict_to_list row of
        Inl e \<Rightarrow> Inl e
      | Inr values \<Rightarrow>
          Inr (csvfile @ join '','' (map (quote_field \<circ> csv_str) values) @ lineterminator))"

text \<open>\<^verbatim>\<open>writer.writeheader()\<close>: the row that maps every field name to itself.\<close>

definition writeheader :: "string \<Rightarrow> error + string" where
  "writeheader csvfile = writerow csvfile (zip fieldnames (map PyStr fieldnames))"

text \<open>The \<^verbatim>\<open>for\<close> loop of lines 39 to 52 over the values of its range.\<close>

fun write_rows :: "int list \<Rightarrow> string \<times> rng \<Rightarrow> error + string \<times> rng" where
  "write_rows [] st = Inr st"
| "write_rows (i # rest) (csvfile, g) =
     (case make_row i g of (row, g1) \<Rightarrow>
        (case writerow csvfile row of
           Inl e \<Rightarrow> Inl e
         | Inr csvfile1 \<Rightarrow> write_rows rest (csvfile1, g1)))"

text \<open>\<^verbatim>\<open>range(a, b)\<close>.\<close>

definition py_range :: "int \<Rightarrow> int \<Rightarrow> int list" where
  "py_range a b = [a..b - 1]"

text \<open>
  \<^verbatim>\<open>main()\<close>: the file \<^verbatim>\<open>large.csv\<close> is opened with \<^verbatim>\<open>newline=''\<close> and UTF-8
  encoding, so the text reaches the disk encoded and otherwise unchanged.
\<close>

definition main :: "filesystem \<Rightarrow> rng \<Rightarrow> error + filesystem \<times> rng" where
  "main fs g =
     (case writeheader [] of
        Inl e \<Rightarrow> Inl e
      | Inr csvfile \<Rightarrow>
          (case write_rows (py_range 1 10001) (csvfile, g) of
             Inl e \<Rightarrow> Inl e
           | Inr (csvfile1, g1) \<Rightarrow> Inr (fs(''large.csv'' \<mapsto> encode_utf8 csvfile1), g1)))"

subsection \<open>Reading the file back\<close>

text \<open>
  The lines of a text: a line ends at CR LF, at a lone CR or at a lone LF. The flag says
  that the previous character was a CR.
\<close>

fun lines_from :: "bool \<Rightarrow> string \<Rightarrow> string \<Rightarrow> string list" where
  "lines_from after_cr cur [] = (if cur = [] then [] else [cur])"
| "lines_from after_cr cur (c # cs) =
     (if c = CHR 0x0A \<and> after_cr then lines_from False cur cs
      else if c = CHR 0x0D \<or> c = CHR 0x0A then cur # lines_from (c = CHR 0x0D) [] cs
      else lines_from False (cur @ [c]) cs)"

definition lines_of :: "string \<Rightarrow> string list" where
  "lines_of s = lines_from False [] s"

text \<open>
  The fields of one line under the same dialect: a field that starts with the quote
  character runs to the closing quote, a doubled quote inside it standing for one.
  The flag says that the reader is inside a quoted field.
\<close>

fun fields_from :: "bool \<Rightarrow> string \<Rightarrow> string \<Rightarrow> string list" where
  "fields_from quoted cur [] = [cur]"
| "fields_from False cur (c # cs) =
     (if c = CHR '','' then cur # fields_from False [] cs
      else if c = CHR 0x22 \<and> cur = [] then fields_from True [] cs
      else fields_from False (cur @ [c]) cs)"
| "fields_from True cur (c # cs) =
     (if c = CHR 0x22 then
        (case cs of
           [] \<Rightarrow> fields_from False cur cs
         | d # ds \<Rightarrow>
             if d = CHR 0x22 then fields_from True (cur @ [d]) ds
             else fields_from False cur cs)
      else fields_from True (cur @ [c]) cs)"

definition csv_fields :: "string \<Rightarrow> string list" where
  "csv_fields line = fields_from False [] line"

section \<open>The JSON fixture generator (generate\_large\_json.py)\<close>

text \<open>
  The values the script builds: strings, lists, and dictionaries with string keys (the
  list of their items in insertion order).
\<close>

datatype json = JStr string | JList "json list" | JDict "(string \<times> json) list"

text \<open>The dictionary of lines 4 to 9 for one \<open>i\<close>, and the list comprehension \<open>data\<close>.\<close>

definition request :: "int \<Rightarrow> json" where
  "request i =
     JDict [(''method'', JStr ''GET''),
            (''requestURI'', JStr (''/bulk/'' @ str_int i)),
            (''headers'', JDict [(''X'', JStr (str_int i))]),
            (''content'', JStr (str_int i))]"

definition data :: json where
  "data = JList (map request (py_range 0 1000))"

subsection \<open>\<^verbatim>\<open>json.dump(data, f, indent=2)\<close>\<close>

text \<open>
  A string is written between quotes; with \<^verbatim>\<open>ensure_ascii\<close>, the quote, the backslash
  and every character outside the printable ASCII range are escaped.
\<close>

definition hex_digit :: "nat \<Rightarrow> char" where
  "hex_digit n = ''0123456789abcdef'' ! n"

definition escape_char :: "char \<Rightarrow> string" where
  "escape_char c =
     (if c = CHR 0x22 then [CHR 0x5C, CHR 0x22]
      else if c = CHR 0x5C then [CHR 0x5C, CHR 0x5C]
      else if c = CHR 0x0A then [CHR 0x5C, CHR ''n'']
      else if c = CHR 0x0D then [CHR 0x5C, CHR ''r'']
      else if c = CHR 0x09 then [CHR 0x5C, CHR ''t'']
      else if c = CHR 0x08 then [CHR 0x5C, CHR ''b'']
      else if c = CHR 0x0C then [CHR 0x5C, CHR ''f'']
      else if 32 \<le> (of_char c :: nat) \<and> (of_char c :: nat) \<le> 126 then [c]
      else [CHR 0x5C, CHR ''u'', CHR ''0'', CHR ''0'',
            hex_digit ((of_char c :: nat) div 16), hex_digit ((of_char c :: nat) mod 16)])"

definition encode_basestring_ascii :: "string \<Rightarrow> string" where
  "encode_basestring_ascii s = [CHR 0x22] @ concat (map escape_char s) @ [CHR 0x22]"

text \<open>
  With \<^verbatim>\<open>indent=2\<close> every item of a non-empty list or dictionary starts a line of its
  own, indented by two spaces per level; items are separated by a comma, a key from its
  value by a colon and a space; an empty list is \<open>[]\<close> and an empty dictionary \<open>{}\<close>.
\<close>

definition newline_indent :: "nat \<Rightarrow> string" where
  "newline_indent level = CHR 0x0A # replicate (2 * level) CHR '' ''"

fun iterencode :: "nat \<Rightarrow> json \<Rightarrow> string"
  and iterencode_list :: "nat \<Rightarrow> json list \<Rightarrow> string"
  and iterencode_dict :: "nat \<Rightarrow> (string \<times> json) list \<Rightarrow> string" where
  "iterencode level (JStr s) = encode_basestring_ascii s"
| "iterencode level (JList []) = ''[]''"
| "iterencode level (JList (x # xs)) =
     ''['' @ newline_indent (level + 1) @ iterencode_list (level + 1) (x # xs) @
     newline_indent level @ '']''"
| "iterencode level (JDict []) = ''{}''"
| "iterencode level (JDict (kv # kvs)) =
     ''{'' @ newline_indent (level + 1) @ iterencode_dict (level + 1) (kv # kvs) @
     newline_indent level @ ''}''"
| "iterencode_list level [] = []"
| "iterencode_list level [x] = iterencode level x"
| "iterencode_list level (x # y # ys) =
     iterencode level x @ '','' @ newline_indent level @ iterencode_list level (y # ys)"
| "iterencode_dict level [] = []"
| "iterencode_dict level [(k, v)] = encode_basestring_ascii k @ '': '' @ iterencode level v"
| "iterencode_dict level ((k, v) # kv # kvs) =
     encode_basestring_ascii k @ '': '' @ iterencode level v @ '','' @ newline_indent level @
     iterencode_dict level (kv # kvs)"

text \<open>The script: \<^verbatim>\<open>large.json\<close> is opened for writing as text and receives the document.\<close>

definition generate_large_json :: "filesystem \<Rightarrow> filesystem" where
  "generate_large_json fs = fs(''large.json'' \<mapsto> encode_utf8 (iterencode 0 data))"

subsection \<open>Reading the document back\<close>

text \<open>
  A reader for JSON texts made of strings, arrays and objects, with any white space
  between the tokens. It does not read escape sequences, numbers or literals: a text
  that holds one is rejected. The first argument bounds the depth of the recursion;
  \<open>None\<close> is a rejected text or an exhausted bound.
\<close>

fun skip_ws :: "string \<Rightarrow> string" where
  "skip_ws [] = []"
| "skip_ws (c # cs) =
     (if c = CHR '' '' \<or> c = CHR 0x0A \<or> c = CHR 0x0D \<or> c = CHR 0x09 then skip_ws cs
      else c # cs)"

fun parse_string :: "string \<Rightarrow> string \<Rightarrow> (string \<times> string) option" where
  "parse_string acc [] = None"
| "parse_string acc (c # cs) =
     (if c = CHR 0x22 then Some (acc, cs)
      else if c = CHR 0x5C \<or> (of_char c :: nat) < 32 then None
      else parse_string (acc @ [c]) cs)"

fun parse_value :: "nat \<Rightarrow> string \<Rightarrow> (json \<times> string) option"
  and parse_items :: "nat \<Rightarrow> string \<Rightarrow> (json list \<times> string) option"
  and parse_members :: "nat \<Rightarrow> string \<Rightarrow> ((string \<times> json) list \<times> string) option" where
  "parse_value 0 s = None"
| "parse_value (Suc n) s =
     (case skip_ws s of
        [] \<Rightarrow> None
      | c # r \<Rightarrow>
          if c = CHR 0x22 then
            (case parse_string [] r of None \<Rightarrow> None | Some (t, r1) \<Rightarrow> Some (JStr t, r1))
          else if c = CHR ''['' then
            (case skip_ws r of
               [] \<Rightarrow> None
             | d # r1 \<Rightarrow>
                 if d = CHR '']'' then Some (JList [], r1)
                 else (case parse_items n r of
                         None \<Rightarrow> None
                       | Some (vs, r2) \<Rightarrow> Some (JList vs, r2)))
          else if c = CHR ''{'' then
            (case skip_ws r of
               [] \<Rightarrow> None
             | d # r1 \<Rightarrow>
                 if d = CHR ''}'' then Some (JDict [], r1)
                 else (case parse_members n r of
                         None \<Rightarrow> None
                       | Some (kvs, r2) \<Rightarrow> Some (JDict kvs, r2)))
          else None)"
| "parse_items 0 s = None"
| "parse_items (Suc n) s =
     (case parse_value n s of
        None \<Rightarrow> None
      | Some (v, r) \<Rightarrow>
          (case skip_ws r of
             [] \<Rightarrow> None
           | c # r1 \<Rightarrow>
               if c = CHR '','' then
                 (case parse_items n r1 of
                    None \<Rightarrow> None
                  | Some (vs, r2) \<Rightarrow> Some (v # vs, r2))
               else if c = CHR '']'' then Some ([v], r1)
               else None))"
| "parse_members 0 s = None"
| "parse_members (Suc n) s =
     (case skip_ws s of
        [] \<Rightarrow> None
      | q # r \<Rightarrow>
          if q = CHR 0x22 then
            (case parse_string [] r of
               None \<Rightarrow> None
             | Some (k, r1) \<Rightarrow>
                 (case skip_ws r1 of
                    [] \<Rightarrow> None
                  | c # r2 \<Rightarrow>
                      if c = CHR '':'' then
                        (case parse_value n r2 of
                           None \<Rightarrow> None
                         | Some (v, r3) \<Rightarrow>
                             (case skip_ws r3 of
                                [] \<Rightarrow> None
                              | d # r4 \<Rightarrow>
                                  if d = CHR '','' then
                                    (case parse_members n r4 of
                                       None \<Rightarrow> None
                                     | Some (kvs, r5) \<Rightarrow> Some ((k, v) # kvs, r5))
                                  else if d = CHR ''}'' then Some ([(k, v)], r4)
                                  else None))
                      else None))
          else None)"

text \<open>
  The whole text is one value, with only white space after it. The bound is the length
  of the text, which no text exhausts that the reader accepts under a larger bound.
\<close>

definition json_loads :: "string \<Rightarrow> json option" where
  "json_loads text =
     (case parse_value (length text) text of
        None \<Rightarrow> None
      | Some (v, r) \<Rightarrow> if skip_ws r = [] then Some v else None)"

subsection \<open>Abbreviations for the JSON proofs\<close>

text \<open>
  A simple string needs no escape: printable ASCII without quote and backslash. A simple
  value has only simple strings and keys. \<open>depth_bound\<close> is a recursion bound under
  which the reader reads the value back.
\<close>

definition simple :: "string \<Rightarrow> bool" where
  "simple s =
     list_all (\<lambda>c. 32 \<le> (of_char c :: nat) \<and> (of_char c :: nat) \<le> 126 \<and>
                   c \<noteq> CHR 0x22 \<and> c \<noteq> CHR 0x5C) s"

fun simple_json :: "json \<Rightarrow> bool"
  and simple_list :: "json list \<Rightarrow> bool"
  and simple_dict :: "(string \<times> json) list \<Rightarrow> bool" where
  "simple_json (JStr s) = simple s"
| "simple_json (JList xs) = simple_list xs"
| "simple_json (JDict kvs) = simple_dict kvs"
| "simple_list [] = True"
| "simple_list (x # xs) = (simple_json x \<and> simple_list xs)"
| "simple_dict [] = True"
| "simple_dict ((k, v) # kvs) = (simple k \<and> simple_json v \<and> simple_dict kvs)"

fun depth_bound :: "json \<Rightarrow> nat"
  and depth_bound_list :: "json list \<Rightarrow> nat"
  and depth_bound_dict :: "(string \<times> json) list \<Rightarrow> nat" where
  "depth_bound (JStr s) = 1"
| "depth_bound (JList xs) = Suc (depth_bound_list xs)"
| "depth_bound (JDict kvs) = Suc (depth_bound_dict kvs)"
| "depth_bound_list [] = 0"
| "depth_bound_list (x # xs) = Suc (depth_bound x + depth_bound_list xs)"
| "depth_bound_dict [] = 0"
| "depth_bound_dict ((k, v) # kvs) = Suc (depth_bound v + depth_bound_dict kvs)"

text \<open>The characters a JSON value starts with.\<close>

definition opener :: "char \<Rightarrow> bool" where
  "opener c \<longleftrightarrow> c = CHR 0x22 \<or> c = CHR ''['' \<or> c = CHR ''{''"

subsection \<open>The casing claimed for the name field\<close>

text \<open>
  The specification describes the casing of each word of \<open>name\<close> as the first character
  upper-cased and every other character lower-cased. That reading, written out to be
  compared with \<open>title\<close>:
\<close>

definition first_upper_rest_lower :: "string \<Rightarrow> string" where
  "first_upper_rest_lower s =
     (case s of [] \<Rightarrow> [] | c # cs \<Rightarrow> upper_char c # map lower_char cs)"

text \<open>A stream whose second draw from the 62 letters and digits is a digit.\<close>

definition digit_stream :: rng where
  "digit_stream n = 53 * n"

subsection \<open>Abbreviations for the proofs\<close>

text \<open>
  A plain string is ASCII text without the characters that make the writer quote a field.
  \<open>good_fields i g fs\<close> says that \<open>fs\<close> are the ten fields of a row with id \<open>i\<close> whose
  name was drawn from the generator \<open>g\<close>, each value within its range or pool;
  \<open>csv_text rows\<close> is the text of a file with the header and these rows.
\<close>

definition plain :: "string \<Rightarrow> bool" where
  "plain s = list_all (\<lambda>c. (of_char c :: nat) < 128 \<and> c \<notin> set special_chars) s"

definition domains :: "string list" where
  "domains = [''gmail.com'', ''yahoo.com'', ''outlook.com'', ''company.com'']"

definition good_fields :: "int \<Rightarrow> rng \<Rightarrow> string list \<Rightarrow> bool" where
  "good_fields i g fs =
     (\<exists>username domain a b c age city country department salary active.
        fs = [str_int i,
              title (fst (random_string 6 g)) @ '' '' @
                title (fst (random_string 8 (snd (random_string 6 g)))),
              username @ ''@'' @ domain,
              ''+1-'' @ str_int a @ ''-'' @ str_int b @ ''-'' @ str_int c,
              str_int age, city, country, department, str_int salary, active] \<and>
        length username = 8 \<and> set username \<subseteq> set (ascii_letters @ digits) \<and>
        domain \<in> set domains \<and>
        100 \<le> a \<and> a \<le> 999 \<and> 100 \<le> b \<and> b \<le> 999 \<and> 1000 \<le> c \<and> c \<le> 9999 \<and>
        22 \<le> age \<and> age \<le> 65 \<and>
        city \<in> set cities \<and> country \<in> set countries \<and> department \<in> set departments \<and>
        30000 \<le> salary \<and> salary \<le> 150000 \<and>
        active \<in> set [''true'', ''false''])"

definition good_row :: "int \<Rightarrow> string list \<Rightarrow> bool" where
  "good_row i fs = (\<exists>g. good_fields i g fs)"

definition records_text :: "string list list \<Rightarrow> string" where
  "records_text rows = concat (map (\<lambda>fs. join '','' fs @ lineterminator) rows)"

definition csv_text :: "string list list \<Rightarrow> string" where
  "csv_text rows = join '','' fieldnames @ lineterminator @ records_text rows"

section \<open>Facts about the draws\<close>

lemma random_choices_Suc:
  "random_choices population (Suc k) g =
     (fst (random_choice population g) #
        fst (random_choices population k (snd (random_choice population g))),
      snd (random_choices population k (snd (random_choice population g))))"
  by (simp split: prod.splits)

lemma random_choices_length: "length (fst (random_choices population k g)) = k"
  by (induction k arbitrary: g) (simp_all add: random_choices_Suc del: random_choices.simps(2))

lemma random_choice_in:
  "population \<noteq> [] \<Longrightarrow> fst (random_choice population g) \<in> set population"
  by (simp add: random_choice_def next_raw_def)

lemma random_choices_subset:
  "population \<noteq> [] \<Longrightarrow> set (fst (random_choices population k g)) \<subseteq> set population"
  by (induction k arbitrary: g)
    (simp_all add: random_choices_Suc random_choice_in del: random_choices.simps(2))

lemma encode_utf8_ascii: "is_ascii s \<Longrightarrow> encode_utf8 s = s"
  by (induction s) (auto simp: encode_utf8_def is_ascii_def)

lemma is_ascii_subset: "set s \<subseteq> set t \<Longrightarrow> is_ascii t \<Longrightarrow> is_ascii s"
  by (auto simp: is_ascii_def list_all_iff)

lemma chunk_population_ascii: "is_ascii chunk_population"
  by (simp add: is_ascii_def chunk_population_def ascii_letters_def digits_def)


lemma draw_chunk_length: "length (fst (draw_chunk g)) = 1024"
  by (simp add: draw_chunk_def random_choices_length chunk_size_def)

lemma draw_chunk_subset: "set (fst (draw_chunk g)) \<subseteq> set chunk_population"
  unfolding draw_chunk_def
  by (rule random_choices_subset) (simp add: chunk_population_def)

lemma draw_chunk_encoded: "encode_utf8 (fst (draw_chunk g)) = fst (draw_chunk g)"
  by (rule encode_utf8_ascii)
    (rule is_ascii_subset [OF draw_chunk_subset chunk_population_ascii])



section \<open>Facts about the write loop\<close>

lemma add_chunks_0: "add_chunks c 0 s = s"
  by (simp add: add_chunks_def)

lemma add_chunks_Suc: "add_chunks c k (add_chunks c (Suc 0) s) = add_chunks c (Suc k) s"
  by (simp add: add_chunks_def replicate_append_same algebra_simps)

lemma loop_body_continue:
  assumes "int (length (encode_utf8 c)) = chunk_size"
    and "bytes_written s + 2 * chunk_size \<le> n"
  shows "loop_body n c s = (False, add_chunks c (Suc 0) s)"
  using assms by (simp add: loop_body_def Let_def add_chunks_def)

lemma loop_body_break:
  assumes "int (length (encode_utf8 c)) = chunk_size"
    and "n < bytes_written s + 2 * chunk_size"
  shows "loop_body n c s =
     (True,
      if 0 < n - (bytes_written s + chunk_size) then
        (add_chunks c (Suc 0) s)\<lparr>remaining_bytes := Some (n - (bytes_written s + chunk_size)),
          written := written s @ [c,
            fst (random_choices last_chunk_population
                  (nat (n - (bytes_written s + chunk_size))) (gen s))],
          gen := snd (random_choices last_chunk_population
                  (nat (n - (bytes_written s + chunk_size))) (gen s))\<rparr>
      else (add_chunks c (Suc 0) s)\<lparr>remaining_bytes := Some (n - (bytes_written s + chunk_size))\<rparr>)"
  using assms by (simp add: loop_body_def Let_def add_chunks_def split: prod.splits)

lemma loop_head_full:
  assumes "int (length (encode_utf8 c)) = chunk_size"
  shows "bytes_written s + (int k + 1) * chunk_size \<le> n \<Longrightarrow>
         loop_head n c k s = Some (add_chunks c k s)"
proof (induction k arbitrary: s)
  case 0
  show ?case by (simp add: add_chunks_0)
next
  case (Suc k)
  have pos: "0 < chunk_size" by (simp add: chunk_size_def)
  from Suc.prems have le: "bytes_written s + 2 * chunk_size \<le> n"
    by (simp add: chunk_size_def algebra_simps)
  with pos have lt: "bytes_written s < n" by simp
  have bw1: "bytes_written (add_chunks c (Suc 0) s) = bytes_written s + chunk_size"
    by (simp add: add_chunks_def)
  from Suc.prems have "bytes_written (add_chunks c (Suc 0) s) + (int k + 1) * chunk_size \<le> n"
    by (simp add: bw1 algebra_simps)
  from Suc.IH [OF this] show ?case
    by (simp add: lt loop_body_continue [OF assms le] add_chunks_Suc)
qed

lemma write_loop_head:
  "loop_head n c k s = Some s' \<Longrightarrow> write_loop n c s = write_loop n c s'"
proof (induction k arbitrary: s)
  case 0
  then show ?case by simp
next
  case (Suc k)
  obtain brk s1 where b: "loop_body n c s = (brk, s1)"
    by (cases "loop_body n c s")
  from Suc.prems b have lt: "bytes_written s < n" and nb: "\<not> brk"
    and h: "loop_head n c k s1 = Some s'"
    by (auto split: if_splits)
  have "write_loop n c s = write_loop n c s1"
    by (subst write_loop.simps) (simp add: lt b nb)
  with Suc.IH [OF h] show ?case by simp
qed

lemma write_loop_guard_false:
  "\<not> bytes_written s < n \<Longrightarrow> write_loop n c s = Some (Guard_False, s)"
  by (subst write_loop.simps) simp

lemma write_loop_break:
  "bytes_written s < n \<Longrightarrow> loop_body n c s = (True, s1) \<Longrightarrow>
   write_loop n c s = Some (Break, s1)"
  by (subst write_loop.simps) simp

lemma loop_head_add:
  "loop_head n c (j + k) s =
     (case loop_head n c j s of None \<Rightarrow> None | Some s' \<Rightarrow> loop_head n c k s')"
  by (induction j arbitrary: s) (auto split: prod.splits)

lemma last_iteration:
  assumes enc: "int (length (encode_utf8 c)) = chunk_size"
    and q: "1 \<le> q" and r: "0 \<le> r" "r < chunk_size" and s: "bytes_written s = 0"
  shows "bytes_written (add_chunks c (nat (q - 1)) s) < q * chunk_size + r"
    and "loop_body (q * chunk_size + r) c (add_chunks c (nat (q - 1)) s) =
           (True, final_state c q r s)"
proof -
  let ?n = "q * chunk_size + r" and ?s = "add_chunks c (nat (q - 1)) s"
  have bw: "bytes_written ?s = (q - 1) * chunk_size"
    using q s by (simp add: add_chunks_def)
  have pos: "0 < chunk_size" by (simp add: chunk_size_def)
  show "bytes_written ?s < ?n"
    using r pos by (simp add: bw algebra_simps)
  have lt: "?n < bytes_written ?s + 2 * chunk_size"
    using r by (simp add: bw algebra_simps)
  have rem: "?n - (bytes_written ?s + chunk_size) = r"
    by (simp add: bw algebra_simps)
  have nq: "nat q = Suc (nat (q - 1))"
    using q by arith
  have rep: "replicate (nat (q - 1)) c @ [c] = replicate (nat q) c"
    unfolding nq by (simp add: replicate_append_same)
  have wr: "written (add_chunks c (Suc 0) ?s) = written s @ replicate (nat q) c"
    using rep by (simp add: add_chunks_def)
  have g: "gen ?s = gen s" by (simp add: add_chunks_def)
  show "loop_body ?n c ?s = (True, final_state c q r s)"
    unfolding loop_body_break [OF enc lt] rem g
    using rep q s by (simp add: final_state_def add_chunks_def algebra_simps)
qed

lemma write_loop_result:
  assumes enc: "int (length (encode_utf8 c)) = chunk_size"
    and q: "1 \<le> q" and r: "0 \<le> r" "r < chunk_size" and s: "bytes_written s = 0"
  shows "write_loop (q * chunk_size + r) c s = Some (Break, final_state c q r s)"
proof -
  let ?n = "q * chunk_size + r" and ?s = "add_chunks c (nat (q - 1)) s"
  have "bytes_written s + (int (nat (q - 1)) + 1) * chunk_size \<le> ?n"
    using q r s by simp
  from loop_head_full [OF enc this] have "write_loop ?n c s = write_loop ?n c ?s"
    by (rule write_loop_head)
  also have "\<dots> = Some (Break, final_state c q r s)"
    by (rule write_loop_break) (rule last_iteration [OF enc q r s])+
  finally show ?thesis .
qed

lemma loop_head_result:
  assumes enc: "int (length (encode_utf8 c)) = chunk_size"
    and q: "1 \<le> q" and r: "0 \<le> r" "r < chunk_size" and s: "bytes_written s = 0"
  shows "loop_head (q * chunk_size + r) c k s =
           (if int k < q then Some (add_chunks c k s) else None)"
proof (cases "int k < q")
  case True
  then have "bytes_written s + (int k + 1) * chunk_size \<le> q * chunk_size + r"
    using r s by (simp add: chunk_size_def)
  from loop_head_full [OF enc this] True show ?thesis by simp
next
  case False
  let ?n = "q * chunk_size + r" and ?s = "add_chunks c (nat (q - 1)) s"
  from False q obtain j where k: "k = nat (q - 1) + Suc j"
    by (metis add_Suc_right le_add_diff_inverse nat_le_iff not_less add.commute
        Suc_nat_eq_nat_zadd1 diff_ge_0_iff_ge diff_add_cancel nat_int)
  have "bytes_written s + (int (nat (q - 1)) + 1) * chunk_size \<le> ?n"
    using q r s by simp
  from loop_head_full [OF enc this] have h: "loop_head ?n c (nat (q - 1)) s = Some ?s" .
  have "loop_head ?n c (Suc j) ?s = None"
    using last_iteration [OF enc q r s] by simp
  with h False show ?thesis
    unfolding k loop_head_add by simp
qed

lemma loop_head_zero:
  "bytes_written s = 0 \<Longrightarrow> loop_head 0 c k s = (if k = 0 then Some s else None)"
  by (cases k) simp_all

lemma length_concat_replicate: "length (concat (replicate k c)) = k * length c"
  by (induction k) simp_all

lemma draw_chunk_enc: "int (length (encode_utf8 (fst (draw_chunk g)))) = chunk_size"
  by (simp add: draw_chunk_encoded draw_chunk_length chunk_size_def)

lemma file_bytes_replicate:
  "encode_utf8 c = c \<Longrightarrow> file_bytes (replicate k c) = concat (replicate k c)"
  by (simp add: file_bytes_def)



lemma initial_state_simps:
  "written (initial_state g) = []" "bytes_written (initial_state g) = 0"
  "remaining_bytes (initial_state g) = None" "gen (initial_state g) = g"
  by (simp_all add: initial_state_def)

lemma final_state_simps:
  "bytes_written (final_state c q r s) = q * chunk_size"
  "remaining_bytes (final_state c q r s) = Some r"
  "written (final_state c q r s) =
     written s @ replicate (nat q) c @
       (if 0 < r then [fst (random_choices last_chunk_population (nat r) (gen s))] else [])"
  "gen (final_state c q r s) =
     (if 0 < r then snd (random_choices last_chunk_population (nat r) (gen s)) else gen s)"
  by (simp_all add: final_state_def)

lemma generate_large_file_alt:
  "generate_large_file fs file_path size_in_mb g =
     (case write_loop (size_in_mb * 1024 * 1024) (fst (draw_chunk g))
             (initial_state (snd (draw_chunk g))) of
        None \<Rightarrow> None
      | Some (ex, s) \<Rightarrow> Some (fs(file_path \<mapsto> file_bytes (written s)), ex, s))"
  unfolding generate_large_file_def Let_def case_prod_beta ..

lemma generate_large_file_positive:
  assumes "1 \<le> size_in_mb"
  shows "generate_large_file fs file_path size_in_mb g =
     Some (fs(file_path \<mapsto>
             file_bytes (written (final_state (fst (draw_chunk g)) (size_in_mb * 1024) 0
               (initial_state (snd (draw_chunk g)))))),
           Break,
           final_state (fst (draw_chunk g)) (size_in_mb * 1024) 0
             (initial_state (snd (draw_chunk g))))"
proof -
  have n: "size_in_mb * 1024 * 1024 = (size_in_mb * 1024) * chunk_size + 0"
    by (simp add: chunk_size_def)
  have "write_loop (size_in_mb * 1024 * 1024) (fst (draw_chunk g))
          (initial_state (snd (draw_chunk g))) =
        Some (Break, final_state (fst (draw_chunk g)) (size_in_mb * 1024) 0
          (initial_state (snd (draw_chunk g))))"
    unfolding n using assms
    by (intro write_loop_result draw_chunk_enc) (simp_all add: chunk_size_def initial_state_simps)
  then show ?thesis
    unfolding generate_large_file_alt by simp
qed

lemma generate_large_file_zero:
  "generate_large_file fs file_path 0 g =
     Some (fs(file_path \<mapsto> []), Guard_False, initial_state (snd (draw_chunk g)))"
  unfolding generate_large_file_alt
  by (simp add: write_loop_guard_false initial_state_simps file_bytes_def)

lemma full_chunks_size:
  "length (file_bytes (replicate k (fst (draw_chunk g)))) = k * 1024"
  by (simp add: file_bytes_replicate draw_chunk_encoded length_concat_replicate
      draw_chunk_length)


section \<open>The size of the generated text file\<close>

text \<open>
  Claim C1. For every nonnegative integer \<open>size_in_mb\<close>, \<open>generate_large_file\<close> returns and
  leaves under \<open>file_path\<close> a file of exactly \<open>size_in_mb * 1024 * 1024\<close> bytes; for 0 the
  file exists and is empty (\<open>getsize\<close> is \<open>Some 0\<close>). The targets 0 MB, 1 MB and 50 MB are
  instances. The target 1 MB + 1 KB is not a whole number of megabytes: the source
  reaches it with the argument \<open>1 + 1/1024\<close>, for which \<open>size_in_bytes\<close> is exactly 1049600;
  the second conjunct runs the loop of \<open>generate_large_file\<close> at that byte target.
\<close>

theorem generate_large_file_exact_size:
  assumes "0 \<le> size_in_mb"
  shows "(\<exists>fs' ex s.
            generate_large_file fs file_path size_in_mb g = Some (fs', ex, s) \<and>
            getsize fs' file_path = Some (nat (size_in_mb * 1024 * 1024))) \<and>
         (\<exists>ex s.
            write_loop (1024 * 1024 + 1024) (fst (draw_chunk g))
              (initial_state (snd (draw_chunk g))) = Some (ex, s) \<and>
            length (file_bytes (written s)) = 1024 * 1024 + 1024)"
proof
  show "\<exists>fs' ex s.
          generate_large_file fs file_path size_in_mb g = Some (fs', ex, s) \<and>
          getsize fs' file_path = Some (nat (size_in_mb * 1024 * 1024))"
  proof (cases "size_in_mb = 0")
    case True
    then show ?thesis
      by (simp add: generate_large_file_zero getsize_def)
  next
    case False
    with assms have pos: "1 \<le> size_in_mb" by simp
    have "nat (size_in_mb * 1024) * 1024 = nat (size_in_mb * 1024 * 1024)"
      using pos by (simp add: nat_mult_distrib)
    then show ?thesis
      by (simp add: generate_large_file_positive [OF pos] getsize_def final_state_simps
          initial_state_simps full_chunks_size)
  qed
next
  have n: "(1024 * 1024 + 1024 :: int) = 1025 * chunk_size + 0"
    by (simp add: chunk_size_def)
  have "write_loop (1024 * 1024 + 1024) (fst (draw_chunk g))
          (initial_state (snd (draw_chunk g))) =
        Some (Break, final_state (fst (draw_chunk g)) 1025 0
          (initial_state (snd (draw_chunk g))))"
    unfolding n
    by (intro write_loop_result draw_chunk_enc) (simp_all add: chunk_size_def initial_state_simps)
  then show "\<exists>ex s.
      write_loop (1024 * 1024 + 1024) (fst (draw_chunk g))
        (initial_state (snd (draw_chunk g))) = Some (ex, s) \<and>
      length (file_bytes (written s)) = 1024 * 1024 + 1024"
    by (simp add: final_state_simps initial_state_simps full_chunks_size)
qed

theorem generate_large_file_exact_size_witness:
  "(0::int) \<le> 50 \<and>
   (\<exists>fs' ex s.
      generate_large_file Map.empty ''large_file.txt'' 50 example_stream = Some (fs', ex, s) \<and>
      getsize fs' ''large_file.txt'' = Some 52428800)"
  using generate_large_file_exact_size [of 50 Map.empty "''large_file.txt''" example_stream]
  by simp

section \<open>Termination, the loop invariant and the last chunk\<close>

lemma megabytes_as_chunks: "size_in_mb * 1024 * 1024 = (size_in_mb * 1024) * chunk_size + 0"
  by (simp add: chunk_size_def)

lemma loop_head_generate:
  assumes "1 \<le> size_in_mb"
  shows "loop_head (size_in_mb * 1024 * 1024) (fst (draw_chunk g)) k
           (initial_state (snd (draw_chunk g))) =
         (if int k < size_in_mb * 1024
          then Some (add_chunks (fst (draw_chunk g)) k (initial_state (snd (draw_chunk g))))
          else None)"
  unfolding megabytes_as_chunks using assms
  by (intro loop_head_result draw_chunk_enc) (simp_all add: chunk_size_def initial_state_simps)

text \<open>
  Claim C7. For every nonnegative integer \<open>size_in_mb\<close> the write loop terminates:
  \<open>generate_large_file\<close> returns a result (the loop, a partial function, is defined).
  For a zero target the guard fails at once; for every other target the loop is left by
  \<^verbatim>\<open>break\<close> in the overshoot branch, and by no other exit. The guard is evaluated
  in exactly \<open>max 1 (size_in_mb * 1024)\<close> loop-head states, so the execution is finite.
\<close>

theorem write_loop_terminates:
  assumes "0 \<le> size_in_mb"
  shows "\<exists>fs' ex s.
           generate_large_file fs file_path size_in_mb g = Some (fs', ex, s) \<and>
           ex = (if size_in_mb = 0 then Guard_False else Break) \<and>
           (\<forall>k. loop_head (size_in_mb * 1024 * 1024) (fst (draw_chunk g)) k
                  (initial_state (snd (draw_chunk g))) \<noteq> None
                \<longleftrightarrow> int k < max 1 (size_in_mb * 1024))"
proof (cases "size_in_mb = 0")
  case True
  then show ?thesis
    by (simp add: generate_large_file_zero loop_head_zero initial_state_simps)
next
  case False
  with assms have pos: "1 \<le> size_in_mb" by simp
  then have "max 1 (size_in_mb * 1024) = size_in_mb * 1024" by simp
  with False show ?thesis
    by (simp only: generate_large_file_positive [OF pos] loop_head_generate [OF pos]) simp
qed

theorem write_loop_terminates_witness:
  "(0::int) \<le> 50 \<and>
   (\<exists>fs' s. generate_large_file Map.empty ''large_file.txt'' 50 example_stream =
      Some (fs', Break, s))"
  using write_loop_terminates [of 50 Map.empty "''large_file.txt''" example_stream]
  by auto

text \<open>
  Claim C9. For every nonnegative integer \<open>size_in_mb\<close>, in every state in which the loop
  guard is evaluated, and in the final state, \<open>bytes_written\<close> is at most
  \<open>size_in_bytes\<close> and equals the number of bytes written to the file so far; whenever
  the guard holds, so that a full chunk is about to be written, a full chunk of room
  remains.
\<close>

theorem bytes_written_never_overshoots:
  assumes "0 \<le> size_in_mb"
  shows "(\<forall>k s. loop_head (size_in_mb * 1024 * 1024) (fst (draw_chunk g)) k
                   (initial_state (snd (draw_chunk g))) = Some s \<longrightarrow>
            bytes_written s \<le> size_in_mb * 1024 * 1024 \<and>
            int (length (file_bytes (written s))) = bytes_written s \<and>
            (bytes_written s < size_in_mb * 1024 * 1024 \<longrightarrow>
               bytes_written s + chunk_size \<le> size_in_mb * 1024 * 1024)) \<and>
         (\<exists>fs' ex s.
            generate_large_file fs file_path size_in_mb g = Some (fs', ex, s) \<and>
            bytes_written s \<le> size_in_mb * 1024 * 1024 \<and>
            int (length (file_bytes (written s))) = bytes_written s)"
proof (cases "size_in_mb = 0")
  case True
  then show ?thesis
    by (simp add: generate_large_file_zero loop_head_zero initial_state_simps file_bytes_def)
next
  case False
  with assms have pos: "1 \<le> size_in_mb" by simp
  have heads: "bytes_written (add_chunks (fst (draw_chunk g)) k (initial_state g1)) =
      int k * 1024"
    "int (length (file_bytes (written (add_chunks (fst (draw_chunk g)) k (initial_state g1))))) =
      int k * 1024" for k g1
    by (simp_all add: add_chunks_def initial_state_simps chunk_size_def full_chunks_size)
  have fin: "int (nat (size_in_mb * 1024) * 1024) = size_in_mb * 1024 * 1024"
    using pos by simp
  show ?thesis
    unfolding generate_large_file_positive [OF pos] loop_head_generate [OF pos]
    using pos fin
    by (auto simp: heads final_state_simps initial_state_simps full_chunks_size chunk_size_def)
qed

theorem bytes_written_never_overshoots_witness:
  "(0::int) \<le> 1 \<and>
   (\<exists>s. loop_head (1 * 1024 * 1024) (fst (draw_chunk example_stream)) 5
           (initial_state (snd (draw_chunk example_stream))) = Some s \<and>
        bytes_written s \<le> 1 * 1024 * 1024 \<and>
        bytes_written s < 1 * 1024 * 1024 \<and>
        bytes_written s + chunk_size \<le> 1 * 1024 * 1024)"
proof -
  have h: "loop_head (1 * 1024 * 1024) (fst (draw_chunk example_stream)) 5
           (initial_state (snd (draw_chunk example_stream))) =
        Some (add_chunks (fst (draw_chunk example_stream)) 5
           (initial_state (snd (draw_chunk example_stream))))"
    using loop_head_generate [of 1 example_stream 5] by simp
  have b: "bytes_written (add_chunks (fst (draw_chunk example_stream)) 5
           (initial_state (snd (draw_chunk example_stream)))) < 1 * 1024 * 1024"
    by (simp add: add_chunks_def initial_state_simps chunk_size_def)
  show ?thesis
    using bytes_written_never_overshoots [of 1 example_stream Map.empty "''large_file.txt''"] h b
    by simp
qed


lemma write_loop_chunks:
  assumes "1 \<le> q" "0 \<le> r" "r < chunk_size"
  shows "write_loop (q * chunk_size + r) (fst (draw_chunk g))
           (initial_state (snd (draw_chunk g))) =
         Some (Break, final_state (fst (draw_chunk g)) q r (initial_state (snd (draw_chunk g))))"
  using assms
  by (intro write_loop_result draw_chunk_enc) (simp_all add: initial_state_simps)

lemma int_full_chunks_size:
  "0 \<le> q \<Longrightarrow>
   int (length (file_bytes (replicate (nat q) (fst (draw_chunk g))))) = q * chunk_size"
  by (simp add: full_chunks_size chunk_size_def)

lemma two_megabytes:
  "generate_large_file fs file_path 2 g =
     Some (fs(file_path \<mapsto> file_bytes (replicate 2048 (fst (draw_chunk g)))), Break,
           final_state (fst (draw_chunk g)) 2048 0 (initial_state (snd (draw_chunk g))))"
  using generate_large_file_positive [of 2 fs file_path g]
  by (simp add: final_state_simps initial_state_simps)

text \<open>
  Claim C2, as amended. When the byte target is a positive multiple \<open>q * chunk_size\<close>,
  the last loop iteration computes \<open>remaining_bytes = 0\<close> and leaves the loop by \<^verbatim>\<open>break\<close>
  without any further write and without any further draw: the writes are exactly \<open>q\<close>
  full chunks. A request of 2 MB performs exactly 2048 writes, all of the full chunk,
  totalling 2097152 bytes on disk.
\<close>

theorem exact_multiple_no_trailing_write:
  assumes "1 \<le> q"
  shows "(\<exists>s. write_loop (q * chunk_size) (fst (draw_chunk g))
                (initial_state (snd (draw_chunk g))) = Some (Break, s) \<and>
              remaining_bytes s = Some 0 \<and>
              written s = replicate (nat q) (fst (draw_chunk g)) \<and>
              gen s = snd (draw_chunk g) \<and>
              int (length (file_bytes (written s))) = q * chunk_size) \<and>
         (\<exists>fs' s. generate_large_file fs file_path 2 g = Some (fs', Break, s) \<and>
              remaining_bytes s = Some 0 \<and>
              written s = replicate 2048 (fst (draw_chunk g)) \<and>
              getsize fs' file_path = Some 2097152)"
proof
  from assms have q: "0 \<le> q" by simp
  show "\<exists>s. write_loop (q * chunk_size) (fst (draw_chunk g))
                (initial_state (snd (draw_chunk g))) = Some (Break, s) \<and>
              remaining_bytes s = Some 0 \<and>
              written s = replicate (nat q) (fst (draw_chunk g)) \<and>
              gen s = snd (draw_chunk g) \<and>
              int (length (file_bytes (written s))) = q * chunk_size"
    using write_loop_chunks [OF assms, of 0 g] int_full_chunks_size [OF q, of g]
    by (simp add: final_state_simps initial_state_simps chunk_size_def)
next
  show "\<exists>fs' s. generate_large_file fs file_path 2 g = Some (fs', Break, s) \<and>
              remaining_bytes s = Some 0 \<and>
              written s = replicate 2048 (fst (draw_chunk g)) \<and>
              getsize fs' file_path = Some 2097152"
    by (simp add: two_megabytes final_state_simps initial_state_simps getsize_def
        full_chunks_size)
qed

theorem exact_multiple_no_trailing_write_witness:
  "(1::int) \<le> 3 \<and>
   (\<exists>s. write_loop (3 * chunk_size) (fst (draw_chunk example_stream))
           (initial_state (snd (draw_chunk example_stream))) = Some (Break, s) \<and>
         remaining_bytes s = Some 0 \<and>
         written s = replicate 3 (fst (draw_chunk example_stream)))"
  using exact_multiple_no_trailing_write [of 3 example_stream]
  by auto

text \<open>
  Claim C2 as stated fails: after the 2048 full chunks of a 2 MB request no zero-length
  chunk is written (line 26 guards the last write by \<^verbatim>\<open>remaining_bytes > 0\<close>) and the
  generator is not consulted again; and for the multiple 0 the loop body never runs, so
  \<^verbatim>\<open>remaining_bytes\<close> is never computed.
\<close>

theorem trailing_empty_write_counterexample:
  "map_option (written \<circ> snd \<circ> snd)
     (generate_large_file Map.empty ''large_file.txt'' 2 example_stream) =
     Some (replicate 2048 (fst (draw_chunk example_stream))) \<and>
   map_option (written \<circ> snd \<circ> snd)
     (generate_large_file Map.empty ''large_file.txt'' 2 example_stream) \<noteq>
     Some (replicate 2048 (fst (draw_chunk example_stream)) @ [[]]) \<and>
   map_option (gen \<circ> snd \<circ> snd)
     (generate_large_file Map.empty ''large_file.txt'' 2 example_stream) =
     Some (snd (draw_chunk example_stream)) \<and>
   map_option (remaining_bytes \<circ> snd \<circ> snd)
     (generate_large_file Map.empty ''large_file.txt'' 0 example_stream) = Some None \<and>
   map_option (written \<circ> snd \<circ> snd)
     (generate_large_file Map.empty ''large_file.txt'' 0 example_stream) = Some []"
  by (simp add: two_megabytes generate_large_file_zero final_state_simps initial_state_simps)







section \<open>Facts about the CSV writer\<close>

lemma plain_Nil: "plain []"
  by (simp add: plain_def)

lemma plain_Cons:
  "plain (c # s) \<longleftrightarrow> (of_char c :: nat) < 128 \<and> c \<notin> set special_chars \<and> plain s"
  by (simp add: plain_def)

lemma plain_append: "plain (s @ t) \<longleftrightarrow> plain s \<and> plain t"
  by (simp add: plain_def)

lemma plain_subset: "set s \<subseteq> set t \<Longrightarrow> plain t \<Longrightarrow> plain s"
  by (auto simp: plain_def list_all_iff)

lemma plain_ascii: "plain s \<Longrightarrow> is_ascii s"
  by (auto simp: plain_def is_ascii_def list_all_iff)

lemma quote_field_plain: "plain s \<Longrightarrow> quote_field s = s"
  by (auto simp: quote_field_def plain_def list_ex_iff list_all_iff)

lemma fields_from_plain:
  "plain s \<Longrightarrow> fields_from False cur (s @ rest) = fields_from False (cur @ s) rest"
  by (induction s arbitrary: cur) (auto simp: plain_Cons special_chars_def)

lemma fields_from_join:
  "fs \<noteq> [] \<Longrightarrow> list_all plain fs \<Longrightarrow> fields_from False [] (join '','' fs) = fs"
proof (induction "'',''" fs rule: join.induct)
  case 1
  then show ?case by simp
next
  case (2 x)
  then show ?case
    using fields_from_plain [of x "[]" "[]"] by simp
next
  case (3 x y ys)
  then show ?case
    using fields_from_plain [of x "[]" "'','' @ join '','' (y # ys)"] by simp
qed

lemma csv_fields_join:
  "fs \<noteq> [] \<Longrightarrow> list_all plain fs \<Longrightarrow> csv_fields (join '','' fs) = fs"
  by (simp add: csv_fields_def fields_from_join)

lemma set_join: "set (join sep xs) \<subseteq> set sep \<union> \<Union> (set ` set xs)"
  by (induction sep xs rule: join.induct) auto

lemma lines_from_body:
  "CHR 0x0D \<notin> set b \<Longrightarrow> CHR 0x0A \<notin> set b \<Longrightarrow>
   lines_from after_cr cur (b @ lineterminator @ rest) = (cur @ b) # lines_from False [] rest"
  by (induction b arbitrary: after_cr cur) (auto simp: lineterminator_def)

lemma lines_of_records:
  "list_all (\<lambda>b. CHR 0x0D \<notin> set b \<and> CHR 0x0A \<notin> set b) bodies \<Longrightarrow>
   lines_from False [] (concat (map (\<lambda>b. b @ lineterminator) bodies)) = bodies"
  by (induction bodies) (simp_all add: lines_from_body)

lemma join_line:
  assumes "list_all plain fs"
  shows "CHR 0x0D \<notin> set (join '','' fs)" "CHR 0x0A \<notin> set (join '','' fs)"
    "is_ascii (join '','' fs)"
proof -
  have sub: "set (join '','' fs) \<subseteq> set '','' \<union> \<Union> (set ` set fs)"
    by (rule set_join)
  have each: "(of_char c :: nat) < 128 \<and> c \<noteq> CHR 0x0D \<and> c \<noteq> CHR 0x0A"
    if "c \<in> set (join '','' fs)" for c
  proof -
    from sub that consider "c = CHR '',''" | f where "f \<in> set fs" "c \<in> set f"
      by auto
    then show ?thesis
    proof cases
      case 1
      then show ?thesis by simp
    next
      case 2
      with assms have "plain f" by (simp add: list_all_iff)
      with 2 show ?thesis by (auto simp: plain_def list_all_iff special_chars_def)
    qed
  qed
  from each show "CHR 0x0D \<notin> set (join '','' fs)" "CHR 0x0A \<notin> set (join '','' fs)"
    by blast+
  from each show "is_ascii (join '','' fs)"
    by (auto simp: is_ascii_def list_all_iff)
qed

lemma special_code:
  "c \<in> set special_chars \<longleftrightarrow> (of_char c :: nat) \<in> {44, 34, 13, 10}"
proof -
  have eq: "c = d \<longleftrightarrow> (of_char c :: nat) = of_char d" for d
    by simp
  show ?thesis
    unfolding special_chars_def by (simp add: eq)
qed

lemma plain_code:
  "plain s \<longleftrightarrow> list_all (\<lambda>c. (of_char c :: nat) < 128 \<and> (of_char c :: nat) \<notin> {44, 34, 13, 10}) s"
  by (simp add: plain_def special_code)

lemma upper_char_code:
  "(of_char (upper_char c) :: nat) =
     (if 97 \<le> (of_char c :: nat) \<and> (of_char c :: nat) \<le> 122 then of_char c - 32 else of_char c)"
  by (auto simp: upper_char_def)

lemma lower_char_code:
  "(of_char (lower_char c) :: nat) =
     (if 65 \<le> (of_char c :: nat) \<and> (of_char c :: nat) \<le> 90 then of_char c + 32 else of_char c)"
  by (auto simp: lower_char_def)

lemma plain_title_from: "plain s \<Longrightarrow> plain (title_from p s)"
  by (induction s arbitrary: p) (auto simp: plain_code upper_char_code lower_char_code)

lemma plain_title: "plain s \<Longrightarrow> plain (title s)"
  by (simp add: title_def plain_title_from)

lemma length_title_from: "length (title_from p s) = length s"
  by (induction s arbitrary: p) simp_all

lemma plain_alnum: "plain (ascii_letters @ digits)"
  by (simp add: plain_def ascii_letters_def digits_def special_chars_def)

lemma plain_digits: "plain digits"
  by (simp add: plain_def digits_def special_chars_def)

lemma str_nat_digits: "set (str_nat n) \<subseteq> set digits"
proof (induction n rule: str_nat.induct)
  case (1 n)
  have "length digits = 10" by (simp add: digits_def)
  then have d: "digits ! k \<in> set digits" if "k < 10" for k
    using that by simp
  show ?case
  proof (cases "n < 10")
    case True
    then show ?thesis
      by (subst str_nat.simps) (simp add: d)
  next
    case False
    with 1 have "set (str_nat (n div 10)) \<subseteq> set digits" by simp
    moreover have "digits ! (n mod 10) \<in> set digits" by (rule d) simp
    ultimately show ?thesis
      using False by (subst str_nat.simps) simp
  qed
qed

lemma plain_str_nat: "plain (str_nat n)"
  by (rule plain_subset [OF str_nat_digits plain_digits])

lemma plain_str_int: "plain (str_int i)"
  by (simp add: str_int_def plain_Cons plain_str_nat special_chars_def)

lemma random_randint_range:
  "a \<le> b \<Longrightarrow> a \<le> fst (random_randint a b g) \<and> fst (random_randint a b g) \<le> b"
proof -
  assume "a \<le> b"
  then have pos: "0 < b - a + 1" by simp
  have "0 \<le> int (g 0) mod (b - a + 1)" "int (g 0) mod (b - a + 1) < b - a + 1"
    using pos by (rule pos_mod_sign, rule pos_mod_bound)
  then show ?thesis
    by (simp add: random_randint_def next_raw_def)
qed

lemma random_string_length: "length (fst (random_string k g)) = k"
  by (simp add: random_string_def random_choices_length)

lemma random_string_subset: "set (fst (random_string k g)) \<subseteq> set (ascii_letters @ digits)"
  unfolding random_string_def
  by (rule random_choices_subset) (simp add: digits_def)

lemma plain_random_string: "plain (fst (random_string k g))"
  by (rule plain_subset [OF random_string_subset plain_alnum])

lemma dict_to_list_row:
  "dict_to_list [(''id'', v0), (''name'', v1), (''email'', v2), (''phone'', v3), (''age'', v4),
      (''city'', v5), (''country'', v6), (''department'', v7), (''salary'', v8),
      (''active'', v9)] = Inr [v0, v1, v2, v3, v4, v5, v6, v7, v8, v9]"
  by (simp add: dict_to_list_def fieldnames_def)

lemma good_fieldsI:
  assumes "length username = 8" "set username \<subseteq> set (ascii_letters @ digits)"
    "domain \<in> set domains"
    "100 \<le> a" "a \<le> 999" "100 \<le> b" "b \<le> 999" "1000 \<le> c" "c \<le> 9999"
    "22 \<le> age" "age \<le> 65"
    "city \<in> set cities" "country \<in> set countries" "department \<in> set departments"
    "30000 \<le> salary" "salary \<le> 150000"
    "active \<in> set [''true'', ''false'']"
  shows "good_fields i g
           [str_int i,
            title (fst (random_string 6 g)) @ '' '' @
              title (fst (random_string 8 (snd (random_string 6 g)))),
            username @ ''@'' @ domain,
            ''+1-'' @ str_int a @ ''-'' @ str_int b @ ''-'' @ str_int c,
            str_int age, city, country, department, str_int salary, active]"
  unfolding good_fields_def
  by (intro exI conjI) (rule refl, (rule assms)+)

lemma random_choice_pair:
  "random_choice seq g = (x, g') \<Longrightarrow> seq \<noteq> [] \<Longrightarrow> x \<in> set seq"
  using random_choice_in [of seq g] by simp

lemma random_randint_pair:
  "random_randint a b g = (x, g') \<Longrightarrow> a \<le> b \<Longrightarrow> a \<le> x \<and> x \<le> b"
  using random_randint_range [of a b g] by simp

lemma random_string_pair:
  "random_string k g = (x, g') \<Longrightarrow> length x = k \<and> set x \<subseteq> set (ascii_letters @ digits)"
  using random_string_length [of k g] random_string_subset [of k g] by simp

lemma make_row_dict:
  "\<exists>username domain a b c age city country department salary active.
     fst (make_row i g) =
       [(''id'', PyInt i),
        (''name'', PyStr (title (fst (random_string 6 g)) @ '' '' @
                          title (fst (random_string 8 (snd (random_string 6 g)))))),
        (''email'', PyStr (username @ ''@'' @ domain)),
        (''phone'', PyStr (''+1-'' @ str_int a @ ''-'' @ str_int b @ ''-'' @ str_int c)),
        (''age'', PyInt age), (''city'', PyStr city), (''country'', PyStr country),
        (''department'', PyStr department), (''salary'', PyInt salary),
        (''active'', PyStr active)] \<and>
     good_fields i g
       [str_int i,
        title (fst (random_string 6 g)) @ '' '' @
          title (fst (random_string 8 (snd (random_string 6 g)))),
        username @ ''@'' @ domain,
        ''+1-'' @ str_int a @ ''-'' @ str_int b @ ''-'' @ str_int c,
        str_int age, city, country, department, str_int salary, active] \<and>
     22 \<le> age \<and> age \<le> 65 \<and> 30000 \<le> salary \<and> salary \<le> 150000 \<and>
     active \<in> set [''true'', ''false'']"
proof -
  obtain first g1 where r1: "random_string 6 g = (first, g1)"
    by (cases "random_string 6 g")
  obtain second g2 where r2: "random_string 8 g1 = (second, g2)"
    by (cases "random_string 8 g1")
  obtain username h1 where r3: "random_string 8 g2 = (username, h1)"
    by (cases "random_string 8 g2")
  obtain domain g3 where r4: "random_choice domains h1 = (domain, g3)"
    by (cases "random_choice domains h1")
  obtain a h2 where r5: "random_randint 100 999 g3 = (a, h2)"
    by (cases "random_randint 100 999 g3")
  obtain b h3 where r6: "random_randint 100 999 h2 = (b, h3)"
    by (cases "random_randint 100 999 h2")
  obtain c g4 where r7: "random_randint 1000 9999 h3 = (c, g4)"
    by (cases "random_randint 1000 9999 h3")
  obtain age g5 where r8: "random_randint 22 65 g4 = (age, g5)"
    by (cases "random_randint 22 65 g4")
  obtain city g6 where r9: "random_choice cities g5 = (city, g6)"
    by (cases "random_choice cities g5")
  obtain country g7 where r10: "random_choice countries g6 = (country, g7)"
    by (cases "random_choice countries g6")
  obtain department g8 where r11: "random_choice departments g7 = (department, g8)"
    by (cases "random_choice departments g7")
  obtain salary g9 where r12: "random_randint 30000 150000 g8 = (salary, g9)"
    by (cases "random_randint 30000 150000 g8")
  obtain active g10 where r13: "random_choice [''true'', ''false''] g9 = (active, g10)"
    by (cases "random_choice [''true'', ''false''] g9")
  have email: "random_email g2 = (username @ ''@'' @ domain, g3)"
    using r3 r4 by (simp add: random_email_def domains_def)
  have phone: "random_phone g3 =
      (''+1-'' @ str_int a @ ''-'' @ str_int b @ ''-'' @ str_int c, g4)"
    using r5 r6 r7 by (simp add: random_phone_def)
  have names: "first = fst (random_string 6 g)"
    "second = fst (random_string 8 (snd (random_string 6 g)))"
    by (simp_all add: r1 r2)
  have row: "fst (make_row i g) =
      [(''id'', PyInt i),
       (''name'', PyStr (title first @ '' '' @ title second)),
       (''email'', PyStr (username @ ''@'' @ domain)),
       (''phone'', PyStr (''+1-'' @ str_int a @ ''-'' @ str_int b @ ''-'' @ str_int c)),
       (''age'', PyInt age), (''city'', PyStr city), (''country'', PyStr country),
       (''department'', PyStr department), (''salary'', PyInt salary),
       (''active'', PyStr active)]"
    by (simp add: make_row_def r1 r2 email phone r8 r9 r10 r11 r12 r13)
  have age: "22 \<le> age" "age \<le> 65"
    using random_randint_pair [OF r8] by simp_all
  have salary: "30000 \<le> salary" "salary \<le> 150000"
    using random_randint_pair [OF r12] by simp_all
  have active: "active \<in> set [''true'', ''false'']"
    by (rule random_choice_pair [OF r13]) simp
  have good: "good_fields i g
          [str_int i,
           title (fst (random_string 6 g)) @ '' '' @
             title (fst (random_string 8 (snd (random_string 6 g)))),
           username @ ''@'' @ domain,
           ''+1-'' @ str_int a @ ''-'' @ str_int b @ ''-'' @ str_int c,
           str_int age, city, country, department, str_int salary, active]"
  proof (rule good_fieldsI)
    show "length username = 8" "set username \<subseteq> set (ascii_letters @ digits)"
      using random_string_pair [OF r3] by simp_all
    show "domain \<in> set domains"
      by (rule random_choice_pair [OF r4]) (simp add: domains_def)
    show "100 \<le> a" "a \<le> 999"
      using random_randint_pair [OF r5] by simp_all
    show "100 \<le> b" "b \<le> 999"
      using random_randint_pair [OF r6] by simp_all
    show "1000 \<le> c" "c \<le> 9999"
      using random_randint_pair [OF r7] by simp_all
    show "city \<in> set cities"
      by (rule random_choice_pair [OF r9]) (simp add: cities_def)
    show "country \<in> set countries"
      by (rule random_choice_pair [OF r10]) (simp add: countries_def)
    show "department \<in> set departments"
      by (rule random_choice_pair [OF r11]) (simp add: departments_def)
  qed (rule age salary active)+
  show ?thesis
    by (intro exI conjI) (rule row [unfolded names], rule good, (rule age salary active)+)
qed

lemma make_row_values:
  "\<exists>fs. dict_to_list (fst (make_row i g)) = Inr fs \<and> good_fields i g (map csv_str fs)"
proof -
  from make_row_dict [of i g] obtain username domain a b c age city country department
      salary active
    where "fst (make_row i g) =
       [(''id'', PyInt i),
        (''name'', PyStr (title (fst (random_string 6 g)) @ '' '' @
                          title (fst (random_string 8 (snd (random_string 6 g)))))),
        (''email'', PyStr (username @ ''@'' @ domain)),
        (''phone'', PyStr (''+1-'' @ str_int a @ ''-'' @ str_int b @ ''-'' @ str_int c)),
        (''age'', PyInt age), (''city'', PyStr city), (''country'', PyStr country),
        (''department'', PyStr department), (''salary'', PyInt salary),
        (''active'', PyStr active)]"
      and "good_fields i g
       [str_int i,
        title (fst (random_string 6 g)) @ '' '' @
          title (fst (random_string 8 (snd (random_string 6 g)))),
        username @ ''@'' @ domain,
        ''+1-'' @ str_int a @ ''-'' @ str_int b @ ''-'' @ str_int c,
        str_int age, city, country, department, str_int salary, active]"
    by blast
  then show ?thesis
    by (simp add: dict_to_list_row csv_str_def)
qed

lemma plain_pools:
  "list_all plain domains" "list_all plain cities" "list_all plain countries"
  "list_all plain departments" "list_all plain [''true'', ''false'']"
  "list_all plain fieldnames"
  by (simp_all add: domains_def cities_def countries_def departments_def fieldnames_def
      plain_def special_chars_def)

lemma plain_member: "list_all plain pool \<Longrightarrow> x \<in> set pool \<Longrightarrow> plain x"
  by (simp add: list_all_iff)

lemma plain_literals: "plain '' ''" "plain ''@''" "plain ''+1-''" "plain ''-''"
  by (simp_all add: plain_def special_chars_def)

lemma good_fields_plain:
  assumes "good_fields i g fs"
  shows "list_all plain fs" and "length fs = 10"
proof -
  from assms obtain username domain a b c age city country department salary active
    where fs: "fs = [str_int i,
              title (fst (random_string 6 g)) @ '' '' @
                title (fst (random_string 8 (snd (random_string 6 g)))),
              username @ ''@'' @ domain,
              ''+1-'' @ str_int a @ ''-'' @ str_int b @ ''-'' @ str_int c,
              str_int age, city, country, department, str_int salary, active]"
      and u: "set username \<subseteq> set (ascii_letters @ digits)"
      and pools: "domain \<in> set domains" "city \<in> set cities" "country \<in> set countries"
        "department \<in> set departments" "active \<in> set [''true'', ''false'']"
    unfolding good_fields_def by blast
  have "plain username"
    by (rule plain_subset [OF u plain_alnum])
  moreover have "plain domain" "plain city" "plain country" "plain department" "plain active"
    using pools plain_pools by (blast intro: plain_member)+
  ultimately show "list_all plain fs"
    unfolding fs
    by (simp add: plain_append plain_Cons plain_str_int plain_title plain_random_string
        special_chars_def)
  show "length fs = 10"
    by (simp add: fs)
qed

lemma writerow_make_row:
  "\<exists>fs. writerow csvfile (fst (make_row i g)) =
           Inr (csvfile @ join '','' fs @ lineterminator) \<and> good_fields i g fs"
proof -
  from make_row_values [of i g] obtain vs
    where vs: "dict_to_list (fst (make_row i g)) = Inr vs"
      and good: "good_fields i g (map csv_str vs)"
    by blast
  have eq: "map (quote_field \<circ> csv_str) vs = map csv_str vs"
    using good_fields_plain(1) [OF good] by (simp add: list_all_iff quote_field_plain)
  show ?thesis
    by (rule exI [of _ "map csv_str vs"]) (simp add: writerow_def vs eq good)
qed

lemma records_text_Cons:
  "records_text (fs # rows) = join '','' fs @ lineterminator @ records_text rows"
  by (simp add: records_text_def)

lemma write_rows_good:
  "\<exists>rows g'. write_rows ids (csvfile, g) = Inr (csvfile @ records_text rows, g') \<and>
     list_all2 good_row ids rows"
proof (induction ids arbitrary: csvfile g)
  case Nil
  show ?case by (simp add: records_text_def)
next
  case (Cons i ids)
  obtain row g1 where mk: "make_row i g = (row, g1)"
    by (cases "make_row i g")
  from writerow_make_row [of csvfile i g] mk obtain fs
    where wr: "writerow csvfile row = Inr (csvfile @ join '','' fs @ lineterminator)"
      and good: "good_fields i g fs"
    by auto
  from Cons.IH [of "csvfile @ join '','' fs @ lineterminator" g1] obtain rows g'
    where rest: "write_rows ids (csvfile @ join '','' fs @ lineterminator, g1) =
        Inr ((csvfile @ join '','' fs @ lineterminator) @ records_text rows, g')"
      and goods: "list_all2 good_row ids rows"
    by blast
  have "write_rows (i # ids) (csvfile, g) = Inr (csvfile @ records_text (fs # rows), g')"
    by (simp add: mk wr rest records_text_Cons)
  moreover have "list_all2 good_row (i # ids) (fs # rows)"
    using good goods by (auto simp: good_row_def)
  ultimately show ?case by blast
qed

lemma good_row_plain: "good_row i fs \<Longrightarrow> list_all plain fs \<and> length fs = 10"
  by (auto simp: good_row_def dest: good_fields_plain)

lemma writeheader_text: "writeheader [] = Inr (join '','' fieldnames @ lineterminator)"
proof -
  have "dict_to_list (zip fieldnames (map PyStr fieldnames)) = Inr (map PyStr fieldnames)"
    by (simp add: dict_to_list_def fieldnames_def)
  moreover have "map (quote_field \<circ> csv_str) (map PyStr fieldnames) = fieldnames"
    using plain_pools(6)
    by (simp add: csv_str_def list_all_iff quote_field_plain map_idI)
  ultimately show ?thesis
    by (simp add: writeheader_def writerow_def del: map_map)
qed

lemma main_text:
  "\<exists>rows g'. main fs g = Inr (fs(''large.csv'' \<mapsto> encode_utf8 (csv_text rows)), g') \<and>
     list_all2 good_row (py_range 1 10001) rows"
proof -
  from write_rows_good [of "py_range 1 10001" "join '','' fieldnames @ lineterminator" g]
  obtain rows g' where
    "write_rows (py_range 1 10001) (join '','' fieldnames @ lineterminator, g) =
       Inr ((join '','' fieldnames @ lineterminator) @ records_text rows, g')"
    and "list_all2 good_row (py_range 1 10001) rows"
    by blast
  then show ?thesis
    by (auto simp: main_def writeheader_text csv_text_def)
qed

lemma is_ascii_append: "is_ascii (s @ t) \<longleftrightarrow> is_ascii s \<and> is_ascii t"
  by (simp add: is_ascii_def)

lemma is_ascii_lineterminator: "is_ascii lineterminator"
  by (simp add: is_ascii_def lineterminator_def)

lemma is_ascii_records:
  "list_all (list_all plain) rows \<Longrightarrow> is_ascii (records_text rows)"
  by (induction rows)
    (simp_all add: records_text_Cons is_ascii_append is_ascii_lineterminator join_line(3),
      simp add: records_text_def is_ascii_def)

lemma csv_text_encoded:
  assumes "list_all (list_all plain) rows"
  shows "encode_utf8 (csv_text rows) = csv_text rows"
  by (rule encode_utf8_ascii)
    (simp add: csv_text_def is_ascii_append is_ascii_lineterminator is_ascii_records [OF assms]
      join_line(3) [OF plain_pools(6)])

lemma lines_of_csv_text:
  assumes "list_all (list_all plain) rows"
  shows "lines_of (csv_text rows) = join '','' fieldnames # map (join '','') rows"
proof -
  have "lines_from False [] (records_text rows) = map (join '','') rows"
  proof -
    have "records_text rows =
        concat (map (\<lambda>b. b @ lineterminator) (map (join '','') rows))"
      by (simp add: records_text_def comp_def)
    moreover have "list_all (\<lambda>b. CHR 0x0D \<notin> set b \<and> CHR 0x0A \<notin> set b)
        (map (join '','') rows)"
      using assms by (auto simp: list_all_iff dest: join_line(1,2) [unfolded list_all_iff])
    ultimately show ?thesis
      by (simp only: lines_of_records)
  qed
  then show ?thesis
    unfolding lines_of_def csv_text_def
    using join_line(1,2) [OF plain_pools(6)]
    by (simp add: lines_from_body)
qed

lemma csv_fields_rows:
  assumes "list_all (\<lambda>fs. list_all plain fs \<and> fs \<noteq> []) rows"
  shows "map csv_fields (map (join '','') rows) = rows"
  using assms by (induction rows) (simp_all add: csv_fields_join)

lemma list_all2_map_eq:
  "list_all2 P xs ys \<Longrightarrow> (\<And>x y. P x y \<Longrightarrow> f y = h x) \<Longrightarrow> map f ys = map h xs"
  by (induction rule: list_all2_induct) simp_all

lemma list_all2_map_const:
  "list_all2 P xs ys \<Longrightarrow> (\<And>x y. P x y \<Longrightarrow> f y = c) \<Longrightarrow> map f ys = replicate (length xs) c"
  by (induction rule: list_all2_induct) simp_all

lemma list_all2_list_all:
  "list_all2 P xs ys \<Longrightarrow> (\<And>x y. P x y \<Longrightarrow> Q y) \<Longrightarrow> list_all Q ys"
  by (induction rule: list_all2_induct) simp_all

lemma length_py_range: "length (py_range a b) = nat (b - a)"
  by (simp add: py_range_def)

lemma py_range_rows: "py_range 1 10001 = [1..10000]"
  unfolding py_range_def by (rule arg_cong [where f = "upto 1"]) simp

lemma length_rows: "length (py_range 1 10001) = 10000"
  by (simp add: length_py_range)

lemma main_rows:
  "\<exists>rows g'. main fs g = Inr (fs(''large.csv'' \<mapsto> csv_text rows), g') \<and>
     lines_of (csv_text rows) = join '','' fieldnames # map (join '','') rows \<and>
     csv_fields (join '','' fieldnames) = fieldnames \<and>
     map csv_fields (map (join '','') rows) = rows \<and>
     list_all2 good_row (py_range 1 10001) rows"
proof -
  from main_text [of fs g] obtain rows g'
    where m: "main fs g = Inr (fs(''large.csv'' \<mapsto> encode_utf8 (csv_text rows)), g')"
      and good: "list_all2 good_row (py_range 1 10001) rows"
    by blast
  from good have pl: "list_all (\<lambda>fs. list_all plain fs \<and> fs \<noteq> []) rows"
    by (rule list_all2_list_all) (auto dest: good_row_plain)
  then have pl': "list_all (list_all plain) rows"
    by (simp add: list_all_iff)
  have "fieldnames \<noteq> []" by (simp add: fieldnames_def)
  then have "csv_fields (join '','' fieldnames) = fieldnames"
    using plain_pools(6) by (rule csv_fields_join)
  with m good show ?thesis
    using csv_text_encoded [OF pl'] lines_of_csv_text [OF pl'] csv_fields_rows [OF pl]
    by auto
qed

lemma good_row_id: "good_row i fs \<Longrightarrow> hd fs = str_int i"
  by (auto simp: good_row_def good_fields_def)

section \<open>The shape of the CSV file\<close>

text \<open>
  Claim C3. For every stream of draws, \<open>main\<close> succeeds and leaves a file \<^verbatim>\<open>large.csv\<close>
  of exactly 10000 + 1 lines: the first holds the ten field names, every one of the
  10000 lines after it has exactly ten fields under the CSV dialect, and their first
  fields, read in order, are the decimal forms of 1, 2, ..., 10000.
\<close>

theorem csv_lines_fields_ids:
  "\<exists>content g'.
     main fs g = Inr (fs(''large.csv'' \<mapsto> content), g') \<and>
     length (lines_of content) = 10000 + 1 \<and>
     csv_fields (hd (lines_of content)) = fieldnames \<and>
     map (\<lambda>l. length (csv_fields l)) (tl (lines_of content)) = replicate 10000 10 \<and>
     map (\<lambda>l. hd (csv_fields l)) (tl (lines_of content)) = map str_int [1..10000]"
proof -
  from main_rows [of fs g] obtain rows g'
    where m: "main fs g = Inr (fs(''large.csv'' \<mapsto> csv_text rows), g')"
      and l: "lines_of (csv_text rows) = join '','' fieldnames # map (join '','') rows"
      and h: "csv_fields (join '','' fieldnames) = fieldnames"
      and f: "map csv_fields (map (join '','') rows) = rows"
      and good: "list_all2 good_row (py_range 1 10001) rows"
    by blast
  have len: "length rows = 10000"
    using list_all2_lengthD [OF good] by (simp only: length_rows)
  have "map length rows = replicate (length (py_range 1 10001)) 10"
    by (rule list_all2_map_const [OF good]) (simp add: good_row_plain)
  then have widths: "map length rows = replicate 10000 10"
    by (simp only: length_rows)
  have "map hd rows = map str_int (py_range 1 10001)"
    by (rule list_all2_map_eq [OF good]) (rule good_row_id)
  then have ids: "map hd rows = map str_int [1..10000]"
    by (simp only: py_range_rows)
  have "map (\<lambda>l. length (csv_fields l)) (map (join '','') rows) = map length rows"
    using arg_cong [OF f, of "map length"] by (simp only: map_map comp_def)
  moreover have "map (\<lambda>l. hd (csv_fields l)) (map (join '','') rows) = map hd rows"
    using arg_cong [OF f, of "map hd"] by (simp only: map_map comp_def)
  ultimately have
    "length (lines_of (csv_text rows)) = 10000 + 1 \<and>
     csv_fields (hd (lines_of (csv_text rows))) = fieldnames \<and>
     map (\<lambda>l. length (csv_fields l)) (tl (lines_of (csv_text rows))) = replicate 10000 10 \<and>
     map (\<lambda>l. hd (csv_fields l)) (tl (lines_of (csv_text rows))) = map str_int [1..10000]"
    unfolding l by (simp only: list.sel length_Cons length_map len h widths ids) simp
  with m show ?thesis by blast
qed

lemma good_row_ranges:
  assumes "good_row i fs"
  shows "\<exists>age salary.
           fs ! 4 = str_int age \<and> 22 \<le> age \<and> age \<le> 65 \<and>
           fs ! 8 = str_int salary \<and> 30000 \<le> salary \<and> salary \<le> 150000 \<and>
           (fs ! 9 = ''true'' \<or> fs ! 9 = ''false'')"
proof -
  from assms obtain g username domain a b c age city country department salary active
    where fs: "fs = [str_int i,
              title (fst (random_string 6 g)) @ '' '' @
                title (fst (random_string 8 (snd (random_string 6 g)))),
              username @ ''@'' @ domain,
              ''+1-'' @ str_int a @ ''-'' @ str_int b @ ''-'' @ str_int c,
              str_int age, city, country, department, str_int salary, active]"
      and r: "22 \<le> age" "age \<le> 65" "30000 \<le> salary" "salary \<le> 150000"
        "active \<in> set [''true'', ''false'']"
    unfolding good_row_def good_fields_def by blast
  have "fs ! 4 = str_int age" "fs ! 8 = str_int salary" "fs ! 9 = active"
    by (simp_all add: fs)
  with r show ?thesis by auto
qed

lemma list_all_map_iff: "list_all P (map f xs) = list_all (\<lambda>x. P (f x)) xs"
  by (simp add: list_all_iff)

text \<open>
  Claim C6. In every generated record the value of \<open>age\<close> is an integer of [22, 65],
  the value of \<open>salary\<close> an integer of [30000, 150000], and the value of \<open>active\<close>
  the string \<open>true\<close> or the string \<open>false\<close>. The first conjunct says so of the row
  dictionary built for any id from any stream of draws; the second of the file: each of
  its 10000 data lines holds the decimal form of such an age in field 4, of such a
  salary in field 8, and \<open>true\<close> or \<open>false\<close> in field 9 (counting from 0).
\<close>

theorem age_salary_active_ranges:
  "(\<exists>age salary active.
      map_of (fst (make_row i g)) ''age'' = Some (PyInt age) \<and> 22 \<le> age \<and> age \<le> 65 \<and>
      map_of (fst (make_row i g)) ''salary'' = Some (PyInt salary) \<and>
      30000 \<le> salary \<and> salary \<le> 150000 \<and>
      map_of (fst (make_row i g)) ''active'' = Some (PyStr active) \<and>
      (active = ''true'' \<or> active = ''false'')) \<and>
   (\<exists>content g'.
      main fs g = Inr (fs(''large.csv'' \<mapsto> content), g') \<and>
      length (tl (lines_of content)) = 10000 \<and>
      list_all (\<lambda>l. \<exists>age salary.
                  csv_fields l ! 4 = str_int age \<and> 22 \<le> age \<and> age \<le> 65 \<and>
                  csv_fields l ! 8 = str_int salary \<and>
                  30000 \<le> salary \<and> salary \<le> 150000 \<and>
                  (csv_fields l ! 9 = ''true'' \<or> csv_fields l ! 9 = ''false''))
        (tl (lines_of content)))"
proof
  from make_row_dict [of i g] obtain username domain a b c age city country department
      salary active
    where row: "fst (make_row i g) =
       [(''id'', PyInt i),
        (''name'', PyStr (title (fst (random_string 6 g)) @ '' '' @
                          title (fst (random_string 8 (snd (random_string 6 g)))))),
        (''email'', PyStr (username @ ''@'' @ domain)),
        (''phone'', PyStr (''+1-'' @ str_int a @ ''-'' @ str_int b @ ''-'' @ str_int c)),
        (''age'', PyInt age), (''city'', PyStr city), (''country'', PyStr country),
        (''department'', PyStr department), (''salary'', PyInt salary),
        (''active'', PyStr active)]"
      and r: "22 \<le> age" "age \<le> 65" "30000 \<le> salary" "salary \<le> 150000"
        "active \<in> set [''true'', ''false'']"
    by blast
  have "map_of (fst (make_row i g)) ''age'' = Some (PyInt age)"
    "map_of (fst (make_row i g)) ''salary'' = Some (PyInt salary)"
    "map_of (fst (make_row i g)) ''active'' = Some (PyStr active)"
    by (simp_all add: row)
  with r show "\<exists>age salary active.
      map_of (fst (make_row i g)) ''age'' = Some (PyInt age) \<and> 22 \<le> age \<and> age \<le> 65 \<and>
      map_of (fst (make_row i g)) ''salary'' = Some (PyInt salary) \<and>
      30000 \<le> salary \<and> salary \<le> 150000 \<and>
      map_of (fst (make_row i g)) ''active'' = Some (PyStr active) \<and>
      (active = ''true'' \<or> active = ''false'')"
    by auto
next
  let ?ok = "\<lambda>fs. \<exists>age salary.
                  fs ! 4 = str_int age \<and> 22 \<le> age \<and> age \<le> 65 \<and>
                  fs ! 8 = str_int salary \<and>
                  30000 \<le> salary \<and> salary \<le> 150000 \<and>
                  (fs ! 9 = ''true'' \<or> fs ! 9 = ''false'')"
  from main_rows [of fs g] obtain rows g'
    where m: "main fs g = Inr (fs(''large.csv'' \<mapsto> csv_text rows), g')"
      and l: "lines_of (csv_text rows) = join '','' fieldnames # map (join '','') rows"
      and f: "map csv_fields (map (join '','') rows) = rows"
      and good: "list_all2 good_row (py_range 1 10001) rows"
    by blast
  have len: "length rows = 10000"
    using list_all2_lengthD [OF good] by (simp only: length_rows)
  have "list_all ?ok rows"
    by (rule list_all2_list_all [OF good]) (rule good_row_ranges)
  then have "list_all ?ok (map csv_fields (map (join '','') rows))"
    by (simp only: f)
  then have "list_all (\<lambda>l. ?ok (csv_fields l)) (map (join '','') rows)"
    by (simp only: list_all_map_iff)
  with len have
    "length (tl (lines_of (csv_text rows))) = 10000 \<and>
     list_all (\<lambda>l. ?ok (csv_fields l)) (tl (lines_of (csv_text rows)))"
    unfolding l by (simp only: list.sel length_map)
  with m show "\<exists>content g'.
      main fs g = Inr (fs(''large.csv'' \<mapsto> content), g') \<and>
      length (tl (lines_of content)) = 10000 \<and>
      list_all (\<lambda>l. ?ok (csv_fields l)) (tl (lines_of content))"
    by blast
qed

theorem age_salary_active_ranges_witness:
  "\<exists>age salary active.
      map_of (fst (make_row 1 example_stream)) ''age'' = Some (PyInt age) \<and>
      22 \<le> age \<and> age \<le> 65 \<and>
      map_of (fst (make_row 1 example_stream)) ''salary'' = Some (PyInt salary) \<and>
      30000 \<le> salary \<and> salary \<le> 150000 \<and>
      map_of (fst (make_row 1 example_stream)) ''active'' = Some (PyStr active) \<and>
      (active = ''true'' \<or> active = ''false'')"
  using age_salary_active_ranges [of 1 example_stream Map.empty]
  by (rule conjunct1)

lemma make_row_name:
  "map_of (fst (make_row i g)) ''name'' =
     Some (PyStr (title (fst (random_string 6 g)) @ '' '' @
                  title (fst (random_string 8 (snd (random_string 6 g))))))"
proof -
  from make_row_dict [of i g] obtain username domain a b c age city country department
      salary active
    where "fst (make_row i g) =
       [(''id'', PyInt i),
        (''name'', PyStr (title (fst (random_string 6 g)) @ '' '' @
                          title (fst (random_string 8 (snd (random_string 6 g)))))),
        (''email'', PyStr (username @ ''@'' @ domain)),
        (''phone'', PyStr (''+1-'' @ str_int a @ ''-'' @ str_int b @ ''-'' @ str_int c)),
        (''age'', PyInt age), (''city'', PyStr city), (''country'', PyStr country),
        (''department'', PyStr department), (''salary'', PyInt salary),
        (''active'', PyStr active)]"
    by blast
  then show ?thesis by simp
qed

lemma title_from_nth:
  "k < length s \<Longrightarrow>
   title_from p s ! k =
     (if (if k = 0 then p else is_cased (s ! (k - 1))) then lower_char (s ! k)
      else upper_char (s ! k))"
proof (induction s arbitrary: p k)
  case Nil
  then show ?case by simp
next
  case (Cons c cs)
  show ?case
  proof (cases k)
    case 0
    then show ?thesis by simp
  next
    case (Suc j)
    with Cons.prems have "j < length cs" by simp
    from Cons.IH [OF this, of "is_cased c"] Suc show ?thesis
      by (cases j) simp_all
  qed
qed

lemma title_nth:
  "k < length s \<Longrightarrow>
   title s ! k =
     (if 0 < k \<and> is_cased (s ! (k - 1)) then lower_char (s ! k) else upper_char (s ! k))"
  by (simp add: title_def title_from_nth)

lemma length_title: "length (title s) = length s"
  by (simp add: title_def length_title_from)

lemma random_choices_any:
  "set xs \<subseteq> set population \<Longrightarrow> \<exists>g. random_choices population (length xs) g = (xs, h)"
proof (induction xs)
  case Nil
  show ?case by simp
next
  case (Cons x xs)
  then obtain g' where g': "random_choices population (length xs) g' = (xs, h)"
    by auto
  from Cons.prems obtain j where j: "j < length population" "population ! j = x"
    by (auto simp: in_set_conv_nth)
  let ?g = "\<lambda>n. case n of 0 \<Rightarrow> j | Suc m \<Rightarrow> g' m"
  have "random_choice population ?g = (x, g')"
    using j by (simp add: random_choice_def next_raw_def)
  then have "random_choices population (length (x # xs)) ?g = (x # xs, h)"
    by (simp add: g')
  then show ?case by blast
qed

lemma random_strings_any:
  assumes "set a \<subseteq> set (ascii_letters @ digits)" "set b \<subseteq> set (ascii_letters @ digits)"
  shows "\<exists>g. fst (random_string (length a) g) = a \<and>
             fst (random_string (length b) (snd (random_string (length a) g))) = b"
proof -
  from random_choices_any [OF assms(2)] obtain g1
    where b: "random_choices (ascii_letters @ digits) (length b) g1 = (b, (\<lambda>n. 0))"
    by blast
  from random_choices_any [OF assms(1)] obtain g
    where a: "random_choices (ascii_letters @ digits) (length a) g = (a, g1)"
    by blast
  from a b show ?thesis
    unfolding random_string_def by (intro exI [of _ g]) simp
qed

lemma digit_first: "fst (random_string 6 digit_stream) = ''a1SJAr''"
  by code_simp

lemma digit_second: "fst (random_string 8 (snd (random_string 6 digit_stream))) = ''i90RIzqh''"
  by code_simp

lemma digit_titles: "title ''a1SJAr'' = ''A1Sjar''" "title ''i90RIzqh'' = ''I90Rizqh''"
  by code_simp+

lemma digit_claimed:
  "first_upper_rest_lower ''a1SJAr'' = ''A1sjar''"
  "first_upper_rest_lower ''i90RIzqh'' = ''I90rizqh''"
  by code_simp+

lemma digits_uncased:
  "c \<in> set digits \<Longrightarrow> \<not> is_cased c \<and> upper_char c = c \<and> lower_char c = c"
  by (auto simp: digits_def is_cased_def upper_char_def lower_char_def)

lemma letters_cased: "c \<in> set ascii_letters \<Longrightarrow> is_cased c"
  by (auto simp: ascii_letters_def is_cased_def)

section \<open>The name field\<close>

text \<open>
  Claim C5, as amended. For every id and every stream of draws, the \<open>name\<close> of the row is
  \<open>title first @ " " @ title second\<close>, where \<open>first\<close> and \<open>second\<close> are strings of 6 and of 8
  letters and digits drawn one after the other, and every pair of such strings is drawn
  by some stream (neither constrains the other). \<open>title\<close> keeps the length, upper-cases
  a letter that is first or follows a character that is not a letter (a digit), and
  lower-cases a letter that follows a letter; digits are not letters and are left as
  they are.
\<close>

theorem name_field_title_case:
  "map_of (fst (make_row i g)) ''name'' =
     Some (PyStr (title (fst (random_string 6 g)) @ '' '' @
                  title (fst (random_string 8 (snd (random_string 6 g)))))) \<and>
   length (fst (random_string 6 g)) = 6 \<and>
   set (fst (random_string 6 g)) \<subseteq> set (ascii_letters @ digits) \<and>
   length (fst (random_string 8 (snd (random_string 6 g)))) = 8 \<and>
   set (fst (random_string 8 (snd (random_string 6 g)))) \<subseteq> set (ascii_letters @ digits) \<and>
   (\<forall>a b. length a = 6 \<and> length b = 8 \<and>
      set a \<subseteq> set (ascii_letters @ digits) \<and> set b \<subseteq> set (ascii_letters @ digits) \<longrightarrow>
      (\<exists>h. fst (random_string 6 h) = a \<and>
           fst (random_string 8 (snd (random_string 6 h))) = b)) \<and>
   (\<forall>s. length (title s) = length s \<and>
      (\<forall>k<length s. title s ! k =
         (if 0 < k \<and> is_cased (s ! (k - 1)) then lower_char (s ! k)
          else upper_char (s ! k)))) \<and>
   (\<forall>c\<in>set digits. \<not> is_cased c \<and> upper_char c = c \<and> lower_char c = c) \<and>
   (\<forall>c\<in>set ascii_letters. is_cased c)"
proof (intro conjI allI impI ballI)
  fix a b :: string
  assume "length a = 6 \<and> length b = 8 \<and>
      set a \<subseteq> set (ascii_letters @ digits) \<and> set b \<subseteq> set (ascii_letters @ digits)"
  then show "\<exists>h. fst (random_string 6 h) = a \<and>
           fst (random_string 8 (snd (random_string 6 h))) = b"
    using random_strings_any [of a b] by auto
qed (simp_all add: make_row_name random_string_length random_string_subset length_title
    title_nth digits_uncased letters_cased del: set_append)

theorem name_field_title_case_witness:
  "map_of (fst (make_row 1 digit_stream)) ''name'' = Some (PyStr ''A1Sjar I90Rizqh'') \<and>
   (2::nat) < length ''a1SJAr'' \<and> is_cased (''a1SJAr'' ! 2) \<and> \<not> is_cased (''a1SJAr'' ! 1) \<and>
   title ''a1SJAr'' ! 2 = upper_char (''a1SJAr'' ! 2) \<and>
   CHR ''1'' \<in> set digits \<and> upper_char CHR ''1'' = CHR ''1''"
  using name_field_title_case [of 1 digit_stream]
  by (simp add: digit_first digit_second digit_titles is_cased_def upper_char_def digits_def)

text \<open>
  Claim C5 as stated fails: with the draws of \<open>digit_stream\<close> the first word is drawn as
  \<open>a1SJAr\<close> and written as \<open>A1Sjar\<close>, the \<open>S\<close> after the digit upper-cased, where "first
  character upper, rest lower" gives \<open>A1sjar\<close>.
\<close>

theorem name_field_counterexample:
  "fst (random_string 6 digit_stream) = ''a1SJAr'' \<and>
   fst (random_string 8 (snd (random_string 6 digit_stream))) = ''i90RIzqh'' \<and>
   map_of (fst (make_row 1 digit_stream)) ''name'' = Some (PyStr ''A1Sjar I90Rizqh'') \<and>
   first_upper_rest_lower (fst (random_string 6 digit_stream)) @ '' '' @
     first_upper_rest_lower (fst (random_string 8 (snd (random_string 6 digit_stream)))) =
     ''A1sjar I90rizqh'' \<and>
   map_of (fst (make_row 1 digit_stream)) ''name'' \<noteq>
     Some (PyStr (first_upper_rest_lower (fst (random_string 6 digit_stream)) @ '' '' @
       first_upper_rest_lower (fst (random_string 8 (snd (random_string 6 digit_stream))))))"
  by (simp add: make_row_name digit_first digit_second digit_titles digit_claimed)

lemma generate_large_file_nonpositive:
  "size_in_mb \<le> 0 \<Longrightarrow>
   generate_large_file fs file_path size_in_mb g =
     Some (fs(file_path \<mapsto> []), Guard_False, initial_state (snd (draw_chunk g)))"
  unfolding generate_large_file_alt
  by (simp add: write_loop_guard_false initial_state_simps file_bytes_def)

lemma text_file_shape:
  "\<exists>fs' ex s.
     generate_large_file fs file_path size_in_mb g = Some (fs', ex, s) \<and>
     ex = (if size_in_mb \<le> 0 then Guard_False else Break) \<and>
     getsize fs' file_path = Some (nat (size_in_mb * 1024 * 1024)) \<and>
     map length (written s) = replicate (nat (size_in_mb * 1024)) 1024 \<and>
     bytes_written s = (if size_in_mb \<le> 0 then 0 else size_in_mb * 1024 * 1024)"
proof (cases "size_in_mb \<le> 0")
  case True
  then show ?thesis
    by (simp add: generate_large_file_nonpositive getsize_def initial_state_simps
        mult_le_0_iff)
next
  case False
  then have pos: "1 \<le> size_in_mb" by simp
  have "nat (size_in_mb * 1024) * 1024 = nat (size_in_mb * 1024 * 1024)"
    using pos by (simp add: nat_mult_distrib)
  with False show ?thesis
    by (simp add: generate_large_file_positive [OF pos] getsize_def final_state_simps
        initial_state_simps full_chunks_size draw_chunk_length chunk_size_def)
qed

lemma csv_file_shape:
  "\<exists>content g'.
     main fs g = Inr (fs(''large.csv'' \<mapsto> content), g') \<and>
     length (lines_of content) = Suc (length (py_range 1 10001)) \<and>
     hd (lines_of content) = join '','' fieldnames \<and>
     map (\<lambda>l. length (csv_fields l)) (lines_of content) =
       length fieldnames # replicate (length (py_range 1 10001)) 10 \<and>
     map (\<lambda>l. hd (csv_fields l)) (lines_of content) =
       hd fieldnames # map str_int (py_range 1 10001)"
proof -
  from main_rows [of fs g] obtain rows g'
    where m: "main fs g = Inr (fs(''large.csv'' \<mapsto> csv_text rows), g')"
      and l: "lines_of (csv_text rows) = join '','' fieldnames # map (join '','') rows"
      and h: "csv_fields (join '','' fieldnames) = fieldnames"
      and f: "map csv_fields (map (join '','') rows) = rows"
      and good: "list_all2 good_row (py_range 1 10001) rows"
    by blast
  have len: "length rows = length (py_range 1 10001)"
    using list_all2_lengthD [OF good] by (rule sym)
  have widths: "map length rows = replicate (length (py_range 1 10001)) 10"
    by (rule list_all2_map_const [OF good]) (simp add: good_row_plain)
  have ids: "map hd rows = map str_int (py_range 1 10001)"
    by (rule list_all2_map_eq [OF good]) (rule good_row_id)
  have w: "map (\<lambda>l. length (csv_fields l)) (map (join '','') rows) = map length rows"
    using arg_cong [OF f, of "map length"] by (simp only: map_map comp_def)
  have i: "map (\<lambda>l. hd (csv_fields l)) (map (join '','') rows) = map hd rows"
    using arg_cong [OF f, of "map hd"] by (simp only: map_map comp_def)
  have shape:
    "length (lines_of (csv_text rows)) = Suc (length (py_range 1 10001)) \<and>
     hd (lines_of (csv_text rows)) = join '','' fieldnames \<and>
     map (\<lambda>l. length (csv_fields l)) (lines_of (csv_text rows)) =
       length fieldnames # replicate (length (py_range 1 10001)) 10 \<and>
     map (\<lambda>l. hd (csv_fields l)) (lines_of (csv_text rows)) =
       hd fieldnames # map str_int (py_range 1 10001)"
    unfolding l
    by (simp only: list.sel list.map length_Cons length_map len h w i widths ids simp_thms)
  show ?thesis
    by (rule exI [of _ "csv_text rows"], rule exI [of _ g'], rule conjI [OF m shape])
qed

section \<open>Facts about the JSON writer and reader\<close>

lemma escape_simple: "simple s \<Longrightarrow> concat (map escape_char s) = s"
  by (induction s) (auto simp: simple_def escape_char_def)

lemma encode_simple:
  "simple s \<Longrightarrow> encode_basestring_ascii s = CHR 0x22 # s @ [CHR 0x22]"
  by (simp add: encode_basestring_ascii_def escape_simple)

lemma parse_string_simple:
  "simple s \<Longrightarrow> parse_string acc (s @ CHR 0x22 # rest) = Some (acc @ s, rest)"
  by (induction s arbitrary: acc) (auto simp: simple_def)

lemma skip_ws_spaces: "skip_ws (replicate k CHR '' '' @ s) = skip_ws s"
  by (induction k) simp_all

lemma skip_ws_newline_indent: "skip_ws (newline_indent k @ s) = skip_ws s"
  by (simp add: newline_indent_def skip_ws_spaces)

lemma skip_ws_idem: "skip_ws (skip_ws s) = skip_ws s"
  by (induction s) simp_all

lemma skip_ws_opener: "opener c \<Longrightarrow> skip_ws (c # s) = c # s"
  by (auto simp: opener_def)

lemma iterencode_opener: "\<exists>c t. iterencode level v = c # t \<and> opener c"
proof (cases v)
  case (JStr s)
  then show ?thesis by (simp add: encode_basestring_ascii_def opener_def)
next
  case (JList xs)
  then show ?thesis by (cases xs) (simp_all add: opener_def)
next
  case (JDict kvs)
  then show ?thesis by (cases kvs) (simp_all add: opener_def)
qed

lemma parse_value_skip: "parse_value n (skip_ws s) = parse_value n s"
  by (cases n) (simp_all add: skip_ws_idem)

lemma parse_items_skip: "parse_items n (skip_ws s) = parse_items n s"
  by (cases n) (simp_all add: parse_value_skip)

lemma parse_members_skip: "parse_members n (skip_ws s) = parse_members n s"
  by (cases n) (simp_all add: skip_ws_idem)

lemma iterencode_list_opener:
  "xs \<noteq> [] \<Longrightarrow> \<exists>c t. iterencode_list level xs = c # t \<and> opener c"
proof (cases xs)
  case Nil
  moreover assume "xs \<noteq> []"
  ultimately show ?thesis by simp
next
  case (Cons x ys)
  from iterencode_opener [of level x] obtain c t
    where "iterencode level x = c # t" "opener c" by blast
  with Cons show ?thesis by (cases ys) simp_all
qed

lemma iterencode_dict_opener:
  "kvs \<noteq> [] \<Longrightarrow> \<exists>t. iterencode_dict level kvs = CHR 0x22 # t"
proof (cases kvs)
  case Nil
  moreover assume "kvs \<noteq> []"
  ultimately show ?thesis by simp
next
  case (Cons kv rest)
  then show ?thesis
    by (cases kv; cases rest) (simp_all add: encode_basestring_ascii_def)
qed

lemma skip_ws_iterencode: "skip_ws (iterencode level v @ s) = iterencode level v @ s"
  using iterencode_opener [of level v] by (auto simp: opener_def)

lemma parse_value_newline_indent: "parse_value n (newline_indent k @ s) = parse_value n s"
  using parse_value_skip [of n "newline_indent k @ s"] parse_value_skip [of n s]
  by (simp add: skip_ws_newline_indent)

lemma parse_items_newline_indent: "parse_items n (newline_indent k @ s) = parse_items n s"
  using parse_items_skip [of n "newline_indent k @ s"] parse_items_skip [of n s]
  by (simp add: skip_ws_newline_indent)

lemma parse_members_newline_indent:
  "parse_members n (newline_indent k @ s) = parse_members n s"
  using parse_members_skip [of n "newline_indent k @ s"] parse_members_skip [of n s]
  by (simp add: skip_ws_newline_indent)

lemma parse_value_space: "parse_value n (CHR '' '' # s) = parse_value n s"
  using parse_value_skip [of n "CHR '' '' # s"] parse_value_skip [of n s]
  by simp

lemma parse_value_string:
  "simple s \<Longrightarrow> parse_value (Suc m) (encode_basestring_ascii s @ rest) = Some (JStr s, rest)"
  by (simp add: encode_simple parse_string_simple)

lemma parse_value_list:
  assumes "xs \<noteq> []"
    and "parse_items m (iterencode_list (Suc level) xs @ newline_indent level @ CHR '']'' # rest) =
           Some (xs, rest)"
  shows "parse_value (Suc m) (iterencode level (JList xs) @ rest) = Some (JList xs, rest)"
proof -
  from assms(1) obtain x ys where xs: "xs = x # ys" by (cases xs) auto
  from iterencode_list_opener [OF assms(1), of "Suc level"] obtain c t
    where c: "iterencode_list (Suc level) xs = c # t" "opener c" by blast
  have sk: "skip_ws (newline_indent (Suc level) @
      iterencode_list (Suc level) xs @ newline_indent level @ CHR '']'' # rest) =
      c # t @ newline_indent level @ CHR '']'' # rest"
    using c by (auto simp: skip_ws_newline_indent opener_def)
  have ne: "c \<noteq> CHR '']''"
    using c(2) by (auto simp: opener_def)
  have "parse_value (Suc m) (CHR ''['' # newline_indent (Suc level) @
      iterencode_list (Suc level) xs @ newline_indent level @ CHR '']'' # rest) =
      Some (JList xs, rest)"
    using assms(2)
    by (simp add: sk ne parse_items_newline_indent del: iterencode.simps)
  then show ?thesis
    by (simp add: xs)
qed

lemma parse_value_dict:
  assumes "kvs \<noteq> []"
    and "parse_members m (iterencode_dict (Suc level) kvs @ newline_indent level @
           CHR ''}'' # rest) = Some (kvs, rest)"
  shows "parse_value (Suc m) (iterencode level (JDict kvs) @ rest) = Some (JDict kvs, rest)"
proof -
  from assms(1) obtain kv ys where kvs: "kvs = kv # ys" by (cases kvs) auto
  from iterencode_dict_opener [OF assms(1), of "Suc level"] obtain t
    where c: "iterencode_dict (Suc level) kvs = CHR 0x22 # t" by blast
  have sk: "skip_ws (newline_indent (Suc level) @
      iterencode_dict (Suc level) kvs @ newline_indent level @ CHR ''}'' # rest) =
      CHR 0x22 # t @ newline_indent level @ CHR ''}'' # rest"
    using c by (simp add: skip_ws_newline_indent)
  have "parse_value (Suc m) (CHR ''{'' # newline_indent (Suc level) @
      iterencode_dict (Suc level) kvs @ newline_indent level @ CHR ''}'' # rest) =
      Some (JDict kvs, rest)"
    using assms(2)
    by (simp add: sk parse_members_newline_indent del: iterencode.simps)
  then show ?thesis
    by (simp add: kvs)
qed

lemma parse_items_last:
  assumes "parse_value m (iterencode level x @ newline_indent j @ CHR '']'' # rest) =
             Some (x, newline_indent j @ CHR '']'' # rest)"
  shows "parse_items (Suc m) (iterencode_list level [x] @ newline_indent j @ CHR '']'' # rest) =
           Some ([x], rest)"
  using assms by (simp add: skip_ws_newline_indent)

lemma parse_items_more:
  assumes "parse_value m (iterencode level x @ CHR '','' # newline_indent level @
               iterencode_list level (y # ys) @ tail) =
             Some (x, CHR '','' # newline_indent level @ iterencode_list level (y # ys) @ tail)"
    and "parse_items m (iterencode_list level (y # ys) @ tail) = Some (y # ys, rest)"
  shows "parse_items (Suc m) (iterencode_list level (x # y # ys) @ tail) =
           Some (x # y # ys, rest)"
  using assms by (simp add: parse_items_newline_indent)

lemma parse_members_last:
  assumes "simple k"
    and "parse_value m (iterencode level v @ newline_indent j @ CHR ''}'' # rest) =
           Some (v, newline_indent j @ CHR ''}'' # rest)"
  shows "parse_members (Suc m)
           (iterencode_dict level [(k, v)] @ newline_indent j @ CHR ''}'' # rest) =
         Some ([(k, v)], rest)"
  using assms
  by (simp add: encode_simple parse_string_simple parse_value_space skip_ws_newline_indent)

lemma parse_members_more:
  assumes "simple k"
    and "parse_value m (iterencode level v @ CHR '','' # newline_indent level @
             iterencode_dict level (kv # kvs) @ tail) =
           Some (v, CHR '','' # newline_indent level @ iterencode_dict level (kv # kvs) @ tail)"
    and "parse_members m (iterencode_dict level (kv # kvs) @ tail) = Some (kv # kvs, rest)"
  shows "parse_members (Suc m) (iterencode_dict level ((k, v) # kv # kvs) @ tail) =
           Some ((k, v) # kv # kvs, rest)"
  using assms
  by (simp add: encode_simple parse_string_simple parse_value_space
      parse_members_newline_indent)

lemma read_back:
  "simple_json v \<Longrightarrow> depth_bound v \<le> n \<Longrightarrow>
     parse_value n (iterencode level v @ rest) = Some (v, rest)"
  "xs \<noteq> [] \<Longrightarrow> simple_list xs \<Longrightarrow> depth_bound_list xs \<le> n \<Longrightarrow>
     parse_items n (iterencode_list level xs @ newline_indent j @ CHR '']'' # rest) =
       Some (xs, rest)"
  "kvs \<noteq> [] \<Longrightarrow> simple_dict kvs \<Longrightarrow> depth_bound_dict kvs \<le> n \<Longrightarrow>
     parse_members n (iterencode_dict level kvs @ newline_indent j @ CHR ''}'' # rest) =
       Some (kvs, rest)"
proof (induction v and xs and kvs
    arbitrary: n level rest and n level rest j and n level rest j
    rule: depth_bound_depth_bound_list_depth_bound_dict.induct)
  case (1 s)
  then obtain m where "n = Suc m" by (cases n) auto
  with 1 show ?case
    by (simp add: parse_value_string del: parse_value.simps)
next
  case (2 xs)
  then obtain m where n: "n = Suc m" and m: "depth_bound_list xs \<le> m"
    by (cases n) auto
  show ?case
  proof (cases "xs = []")
    case True
    then show ?thesis by (simp add: n)
  next
    case False
    from 2 have "simple_list xs" by simp
    from "2.IH" [OF False this m]
    have "parse_items m (iterencode_list (Suc level) xs @ newline_indent level @
        CHR '']'' # rest) = Some (xs, rest)" .
    from parse_value_list [OF False this] show ?thesis
      by (simp only: n)
  qed
next
  case (3 kvs)
  then obtain m where n: "n = Suc m" and m: "depth_bound_dict kvs \<le> m"
    by (cases n) auto
  show ?case
  proof (cases "kvs = []")
    case True
    then show ?thesis by (simp add: n)
  next
    case False
    from 3 have "simple_dict kvs" by simp
    from "3.IH" [OF False this m]
    have "parse_members m (iterencode_dict (Suc level) kvs @ newline_indent level @
        CHR ''}'' # rest) = Some (kvs, rest)" .
    from parse_value_dict [OF False this] show ?thesis
      by (simp only: n)
  qed
next
  case 4
  then show ?case by simp
next
  case (5 x xs)
  then obtain m where n: "n = Suc m" and mx: "depth_bound x \<le> m"
    and ms: "depth_bound_list xs \<le> m"
    by (cases n) auto
  from 5 have sx: "simple_json x" and ss: "simple_list xs" by simp_all
  show ?case
  proof (cases xs)
    case Nil
    from "5.IH"(1) [OF sx mx] show ?thesis
      unfolding Nil n by (rule parse_items_last)
  next
    case (Cons y ys)
    then have ne: "xs \<noteq> []" by simp
    from "5.IH"(2) [OF ne ss ms]
    have "parse_items m (iterencode_list level (y # ys) @ newline_indent j @
        CHR '']'' # rest) = Some (y # ys, rest)"
      by (simp only: Cons)
    with "5.IH"(1) [OF sx mx] show ?thesis
      unfolding Cons n by (intro parse_items_more)
  qed
next
  case 6
  then show ?case by simp
next
  case (7 k v kvs)
  then obtain m where n: "n = Suc m" and mv: "depth_bound v \<le> m"
    and ms: "depth_bound_dict kvs \<le> m"
    by (cases n) auto
  from 7 have sk: "simple k" and sv: "simple_json v" and ss: "simple_dict kvs" by simp_all
  show ?case
  proof (cases kvs)
    case Nil
    from sk "7.IH"(1) [OF sv mv] show ?thesis
      unfolding Nil n by (rule parse_members_last)
  next
    case (Cons kv rest')
    then have ne: "kvs \<noteq> []" by simp
    from "7.IH"(2) [OF ne ss ms]
    have "parse_members m (iterencode_dict level (kv # rest') @ newline_indent j @
        CHR ''}'' # rest) = Some (kv # rest', rest)"
      by (simp only: Cons)
    with sk "7.IH"(1) [OF sv mv] show ?thesis
      unfolding Cons n by (intro parse_members_more)
  qed
qed

lemma length_newline_indent: "length (newline_indent k) = Suc (2 * k)"
  by (simp add: newline_indent_def)

lemma depth_bound_length:
  "depth_bound v \<le> length (iterencode level v)"
  "depth_bound_list xs \<le> Suc (length (iterencode_list level xs))"
  "depth_bound_dict kvs \<le> Suc (length (iterencode_dict level kvs))"
proof (induction v and xs and kvs arbitrary: level and level and level
    rule: depth_bound_depth_bound_list_depth_bound_dict.induct)
  case (1 s)
  show ?case by (simp add: encode_basestring_ascii_def)
next
  case (2 xs)
  show ?case
  proof (cases xs)
    case Nil
    then show ?thesis by simp
  next
    case (Cons y ys)
    have "length (iterencode level (JList (y # ys))) =
        4 + 2 * Suc level + 2 * level + length (iterencode_list (Suc level) (y # ys))"
      by (simp add: length_newline_indent del: iterencode_list.simps)
    with "2.IH" [of "Suc level"] Cons show ?thesis
      by (simp del: iterencode.simps iterencode_list.simps)
  qed
next
  case (3 kvs)
  show ?case
  proof (cases kvs)
    case Nil
    then show ?thesis by simp
  next
    case (Cons y ys)
    have "length (iterencode level (JDict (y # ys))) =
        4 + 2 * Suc level + 2 * level + length (iterencode_dict (Suc level) (y # ys))"
      by (simp add: length_newline_indent del: iterencode_dict.simps)
    with "3.IH" [of "Suc level"] Cons show ?thesis
      by (simp del: iterencode.simps iterencode_dict.simps)
  qed
next
  case 4
  show ?case by simp
next
  case (5 x xs)
  show ?case
  proof (cases xs)
    case Nil
    with "5.IH"(1) [of level] show ?thesis by simp
  next
    case (Cons y ys)
    have "length (iterencode_list level (x # y # ys)) =
        length (iterencode level x) + 2 + 2 * level + length (iterencode_list level (y # ys))"
      by (simp add: length_newline_indent del: iterencode.simps)
    with "5.IH"(1) [of level] "5.IH"(2) [of level] Cons show ?thesis
      by (simp del: iterencode.simps iterencode_list.simps)
  qed
next
  case 6
  show ?case by simp
next
  case (7 k v kvs)
  show ?case
  proof (cases kvs)
    case Nil
    with "7.IH"(1) [of level] show ?thesis by simp
  next
    case (Cons y ys)
    have "length (iterencode_dict level ((k, v) # y # ys)) =
        length (encode_basestring_ascii k) + 2 + length (iterencode level v) + 2 + 2 * level +
        length (iterencode_dict level (y # ys))"
      by (simp add: length_newline_indent del: iterencode.simps)
    with "7.IH"(1) [of level] "7.IH"(2) [of level] Cons show ?thesis
      by (simp del: iterencode.simps iterencode_dict.simps)
  qed
qed

lemma simple_ascii: "simple s \<Longrightarrow> is_ascii s"
  unfolding simple_def is_ascii_def
  by (erule list.pred_mono_strong) (elim conjE, linarith)

lemma is_ascii_Nil: "is_ascii []"
  by (simp add: is_ascii_def)

lemma is_ascii_newline_indent: "is_ascii (newline_indent k)"
  by (simp add: newline_indent_def is_ascii_def list_all_iff)

lemma is_ascii_Cons: "is_ascii (c # s) \<longleftrightarrow> (of_char c :: nat) < 128 \<and> is_ascii s"
  by (simp add: is_ascii_def)

lemma is_ascii_encode: "simple s \<Longrightarrow> is_ascii (encode_basestring_ascii s)"
  by (simp add: encode_simple is_ascii_Cons is_ascii_append simple_ascii is_ascii_Nil)

lemma json_loads_iterencode:
  assumes "simple_json v"
  shows "json_loads (iterencode level v) = Some v"
proof -
  have "parse_value (length (iterencode level v)) (iterencode level v @ []) = Some (v, [])"
    by (rule read_back(1) [OF assms depth_bound_length(1)])
  then have "parse_value (length (iterencode level v)) (iterencode level v) = Some (v, [])"
    by (simp only: append_Nil2)
  then show ?thesis
    unfolding json_loads_def by simp
qed

lemma is_ascii_iterencode:
  "simple_json v \<Longrightarrow> is_ascii (iterencode level v)"
  "simple_list xs \<Longrightarrow> is_ascii (iterencode_list level xs)"
  "simple_dict kvs \<Longrightarrow> is_ascii (iterencode_dict level kvs)"
proof (induction v and xs and kvs arbitrary: level and level and level
    rule: depth_bound_depth_bound_list_depth_bound_dict.induct)
  case (1 s)
  then show ?case by (simp add: is_ascii_encode)
next
  case (2 xs)
  then have "is_ascii (iterencode_list (Suc level) xs)" by simp
  then show ?case
    by (cases xs)
      (simp_all add: is_ascii_Cons is_ascii_append is_ascii_newline_indent is_ascii_Nil
        del: iterencode_list.simps)
next
  case (3 kvs)
  then have "is_ascii (iterencode_dict (Suc level) kvs)" by simp
  then show ?case
    by (cases kvs)
      (simp_all add: is_ascii_Cons is_ascii_append is_ascii_newline_indent is_ascii_Nil
        del: iterencode_dict.simps)
next
  case 4
  show ?case by (simp add: is_ascii_Nil)
next
  case (5 x xs)
  then have "is_ascii (iterencode level x)" "is_ascii (iterencode_list level xs)"
    by simp_all
  then show ?case
    by (cases xs)
      (simp_all add: is_ascii_Cons is_ascii_append is_ascii_newline_indent is_ascii_Nil
        del: iterencode.simps)
next
  case 6
  show ?case by (simp add: is_ascii_Nil)
next
  case (7 k v kvs)
  then have "is_ascii (iterencode level v)" "is_ascii (iterencode_dict level kvs)"
    "is_ascii (encode_basestring_ascii k)"
    by (simp_all add: is_ascii_encode)
  then show ?case
    by (cases kvs)
      (simp_all add: is_ascii_Cons is_ascii_append is_ascii_newline_indent is_ascii_Nil
        del: iterencode.simps)
qed

lemma simple_subset: "set s \<subseteq> set t \<Longrightarrow> simple t \<Longrightarrow> simple s"
  unfolding simple_def list_all_iff by blast

lemma simple_append: "simple (s @ t) \<longleftrightarrow> simple s \<and> simple t"
  by (simp add: simple_def)

lemma simple_minus_digits: "simple (CHR ''-'' # digits)"
  by (simp add: simple_def digits_def)

lemma str_int_chars: "set (str_int i) \<subseteq> set (CHR ''-'' # digits)"
  using str_nat_digits [of "nat i"] str_nat_digits [of "nat (- i)"]
  by (auto simp: str_int_def)

lemma simple_str_int: "simple (str_int i)"
  by (rule simple_subset [OF str_int_chars simple_minus_digits])

lemma simple_Cons:
  "simple (c # s) \<longleftrightarrow>
     32 \<le> (of_char c :: nat) \<and> (of_char c :: nat) \<le> 126 \<and>
     c \<noteq> CHR 0x22 \<and> c \<noteq> CHR 0x5C \<and> simple s"
  by (simp add: simple_def)

lemma simple_Nil: "simple []"
  by (simp add: simple_def)

lemma simple_request: "simple_json (request i)"
  by (simp add: request_def simple_Cons simple_Nil simple_str_int)

lemma simple_requests: "simple_list (map request ids)"
  by (induction ids) (simp_all add: simple_request)

lemma simple_data: "simple_json data"
  by (simp add: data_def simple_requests)

lemma generate_large_json_text:
  "generate_large_json fs = fs(''large.json'' \<mapsto> iterencode 0 data)"
  unfolding generate_large_json_def
  by (simp only: encode_utf8_ascii [OF is_ascii_iterencode(1) [OF simple_data]])

lemma json_loads_data: "json_loads (iterencode 0 data) = Some data"
  by (rule json_loads_iterencode [OF simple_data])

lemma py_range_nth: "k < nat (b - a) \<Longrightarrow> py_range a b ! k = a + int k"
  unfolding py_range_def by (rule nth_upto) linarith

lemma length_requests: "length (map request (py_range 0 1000)) = 1000"
  by (simp add: length_py_range)

lemma nth_requests:
  assumes "i < 1000"
  shows "map request (py_range 0 1000) ! i = request (int i)"
proof -
  from assms have k: "i < nat (1000 - 0)" by simp
  then have "i < length (py_range 0 1000)" by (simp only: length_py_range)
  then have "map request (py_range 0 1000) ! i = request (py_range 0 1000 ! i)"
    by (rule nth_map)
  also have "py_range 0 1000 ! i = 0 + int i"
    by (rule py_range_nth [OF k])
  finally show ?thesis by simp
qed

lemma str_int_7: "str_int 7 = ''7''"
  by code_simp

lemma str_int_999: "str_int 999 = ''999''"
  by code_simp

section \<open>The JSON document\<close>

text \<open>
  Claim C4. The script leaves in \<^verbatim>\<open>large.json\<close> a text that reads back as a JSON array
  of exactly 1000 objects, the value \<open>data\<close> itself; for every index \<open>i\<close> below 1000 the
  object at index \<open>i\<close> has, in this order, \<open>method\<close> equal to \<open>GET\<close>, \<open>requestURI\<close>
  equal to \<open>/bulk/\<close> followed by the decimal form of \<open>i\<close>, \<open>headers\<close> equal to the object
  with the one key \<open>X\<close> and the decimal form of \<open>i\<close>, and \<open>content\<close> equal to the decimal
  form of \<open>i\<close>, and no other key.
\<close>

theorem json_array_of_requests:
  "\<exists>text objs.
     generate_large_json fs = fs(''large.json'' \<mapsto> text) \<and>
     json_loads text = Some (JList objs) \<and>
     JList objs = data \<and>
     length objs = 1000 \<and>
     (\<forall>i<1000. objs ! i =
        JDict [(''method'', JStr ''GET''),
               (''requestURI'', JStr (''/bulk/'' @ str_int (int i))),
               (''headers'', JDict [(''X'', JStr (str_int (int i)))]),
               (''content'', JStr (str_int (int i)))])"
proof (intro exI conjI allI impI)
  show "generate_large_json fs = fs(''large.json'' \<mapsto> iterencode 0 data)"
    by (rule generate_large_json_text)
  show "json_loads (iterencode 0 data) = Some (JList (map request (py_range 0 1000)))"
    using json_loads_data by (simp only: data_def)
  show "JList (map request (py_range 0 1000)) = data"
    by (simp only: data_def)
  show "length (map request (py_range 0 1000)) = 1000"
    by (rule length_requests)
  fix i :: nat
  assume "i < 1000"
  then have "map request (py_range 0 1000) ! i = request (int i)"
    by (rule nth_requests)
  then show "map request (py_range 0 1000) ! i =
        JDict [(''method'', JStr ''GET''),
               (''requestURI'', JStr (''/bulk/'' @ str_int (int i))),
               (''headers'', JDict [(''X'', JStr (str_int (int i)))]),
               (''content'', JStr (str_int (int i)))]"
    by (simp only: request_def)
qed

theorem json_array_of_requests_witness:
  "\<exists>text objs.
     generate_large_json Map.empty = [''large.json'' \<mapsto> text] \<and>
     json_loads text = Some (JList objs) \<and>
     length objs = 1000 \<and>
     (7::nat) < 1000 \<and>
     objs ! 7 =
        JDict [(''method'', JStr ''GET''),
               (''requestURI'', JStr ''/bulk/7''),
               (''headers'', JDict [(''X'', JStr ''7'')]),
               (''content'', JStr ''7'')] \<and>
     (999::nat) < 1000 \<and>
     objs ! 999 =
        JDict [(''method'', JStr ''GET''),
               (''requestURI'', JStr ''/bulk/999''),
               (''headers'', JDict [(''X'', JStr ''999'')]),
               (''content'', JStr ''999'')]"
proof -
  from json_array_of_requests [of Map.empty] obtain doc objs
    where g: "generate_large_json Map.empty = [''large.json'' \<mapsto> doc]"
      and l: "json_loads doc = Some (JList objs)"
      and n: "length objs = 1000"
      and a: "\<forall>i<1000. objs ! i =
        JDict [(''method'', JStr ''GET''),
               (''requestURI'', JStr (''/bulk/'' @ str_int (int i))),
               (''headers'', JDict [(''X'', JStr (str_int (int i)))]),
               (''content'', JStr (str_int (int i)))]"
    by (elim exE conjE) (rule that)
  from a have "objs ! 7 =
        JDict [(''method'', JStr ''GET''),
               (''requestURI'', JStr (''/bulk/'' @ str_int (int 7))),
               (''headers'', JDict [(''X'', JStr (str_int (int 7)))]),
               (''content'', JStr (str_int (int 7)))]"
    by (rule allE [of _ 7]) simp
  then have a7: "objs ! 7 =
        JDict [(''method'', JStr ''GET''),
               (''requestURI'', JStr ''/bulk/7''),
               (''headers'', JDict [(''X'', JStr ''7'')]),
               (''content'', JStr ''7'')]"
    by (simp add: str_int_7)
  from a have "objs ! 999 =
        JDict [(''method'', JStr ''GET''),
               (''requestURI'', JStr (''/bulk/'' @ str_int (int 999))),
               (''headers'', JDict [(''X'', JStr (str_int (int 999)))]),
               (''content'', JStr (str_int (int 999)))]"
    by (rule allE [of _ 999]) simp
  then have a999: "objs ! 999 =
        JDict [(''method'', JStr ''GET''),
               (''requestURI'', JStr ''/bulk/999''),
               (''headers'', JDict [(''X'', JStr ''999'')]),
               (''content'', JStr ''999'')]"
    by (simp add: str_int_999)
  have "(7::nat) < 1000" "(999::nat) < 1000" by simp_all
  with g l n a7 a999 show ?thesis
    by (intro exI conjI)
qed

section \<open>The shape of the output does not depend on the draws\<close>

text \<open>
  Claim C8. For any two streams of draws \<open>g1\<close> and \<open>g2\<close>: the two runs of
  \<open>generate_large_file\<close> for the same size both return, by the same exit, and leave files
  of the same byte length, written in the same number of pieces of the same lengths; the
  two runs of \<open>main\<close> both succeed and leave CSV files with the same number of lines, the
  same header line, the same number of fields in each line and the same id column. The
  JSON generator draws nothing: its model takes no stream of draws, and every run leaves
  a document that reads back as the constant \<open>data\<close>.
\<close>

theorem shape_independent_of_draws:
  "(\<exists>fs1 fs2 ex s1 s2.
      generate_large_file fs file_path size_in_mb g1 = Some (fs1, ex, s1) \<and>
      generate_large_file fs file_path size_in_mb g2 = Some (fs2, ex, s2) \<and>
      getsize fs1 file_path = getsize fs2 file_path \<and>
      map length (written s1) = map length (written s2) \<and>
      bytes_written s1 = bytes_written s2) \<and>
   (\<exists>c1 c2 h1 h2.
      main fs g1 = Inr (fs(''large.csv'' \<mapsto> c1), h1) \<and>
      main fs g2 = Inr (fs(''large.csv'' \<mapsto> c2), h2) \<and>
      length (lines_of c1) = length (lines_of c2) \<and>
      hd (lines_of c1) = hd (lines_of c2) \<and>
      map (\<lambda>l. length (csv_fields l)) (lines_of c1) =
        map (\<lambda>l. length (csv_fields l)) (lines_of c2) \<and>
      map (\<lambda>l. hd (csv_fields l)) (lines_of c1) = map (\<lambda>l. hd (csv_fields l)) (lines_of c2)) \<and>
   (\<exists>doc. generate_large_json fs = fs(''large.json'' \<mapsto> doc) \<and> json_loads doc = Some data)"
proof -
  from text_file_shape [of fs file_path size_in_mb g1] obtain fs1 ex1 s1
    where a: "generate_large_file fs file_path size_in_mb g1 = Some (fs1, ex1, s1)"
      and a1: "ex1 = (if size_in_mb \<le> 0 then Guard_False else Break)"
      and a2: "getsize fs1 file_path = Some (nat (size_in_mb * 1024 * 1024))"
      and a3: "map length (written s1) = replicate (nat (size_in_mb * 1024)) 1024"
      and a4: "bytes_written s1 = (if size_in_mb \<le> 0 then 0 else size_in_mb * 1024 * 1024)"
    by blast
  from text_file_shape [of fs file_path size_in_mb g2] obtain fs2 ex2 s2
    where b: "generate_large_file fs file_path size_in_mb g2 = Some (fs2, ex2, s2)"
      and b1: "ex2 = (if size_in_mb \<le> 0 then Guard_False else Break)"
      and b2: "getsize fs2 file_path = Some (nat (size_in_mb * 1024 * 1024))"
      and b3: "map length (written s2) = replicate (nat (size_in_mb * 1024)) 1024"
      and b4: "bytes_written s2 = (if size_in_mb \<le> 0 then 0 else size_in_mb * 1024 * 1024)"
    by blast
  have "generate_large_file fs file_path size_in_mb g1 = Some (fs1, ex1, s1) \<and>
      generate_large_file fs file_path size_in_mb g2 = Some (fs2, ex1, s2) \<and>
      getsize fs1 file_path = getsize fs2 file_path \<and>
      map length (written s1) = map length (written s2) \<and>
      bytes_written s1 = bytes_written s2"
    by (simp only: a b a1 b1 a2 b2 a3 b3 a4 b4 simp_thms)
  then have A: "\<exists>fs1 fs2 ex s1 s2.
      generate_large_file fs file_path size_in_mb g1 = Some (fs1, ex, s1) \<and>
      generate_large_file fs file_path size_in_mb g2 = Some (fs2, ex, s2) \<and>
      getsize fs1 file_path = getsize fs2 file_path \<and>
      map length (written s1) = map length (written s2) \<and>
      bytes_written s1 = bytes_written s2"
    by (intro exI)
  from csv_file_shape [of fs g1] obtain c1 h1
    where a: "main fs g1 = Inr (fs(''large.csv'' \<mapsto> c1), h1)"
      and a1: "length (lines_of c1) = Suc (length (py_range 1 10001))"
      and a2: "hd (lines_of c1) = join '','' fieldnames"
      and a3: "map (\<lambda>l. length (csv_fields l)) (lines_of c1) =
        length fieldnames # replicate (length (py_range 1 10001)) 10"
      and a4: "map (\<lambda>l. hd (csv_fields l)) (lines_of c1) =
        hd fieldnames # map str_int (py_range 1 10001)"
    by (elim exE conjE) (rule that)
  from csv_file_shape [of fs g2] obtain c2 h2
    where b: "main fs g2 = Inr (fs(''large.csv'' \<mapsto> c2), h2)"
      and b1: "length (lines_of c2) = Suc (length (py_range 1 10001))"
      and b2: "hd (lines_of c2) = join '','' fieldnames"
      and b3: "map (\<lambda>l. length (csv_fields l)) (lines_of c2) =
        length fieldnames # replicate (length (py_range 1 10001)) 10"
      and b4: "map (\<lambda>l. hd (csv_fields l)) (lines_of c2) =
        hd fieldnames # map str_int (py_range 1 10001)"
    by (elim exE conjE) (rule that)
  have "main fs g1 = Inr (fs(''large.csv'' \<mapsto> c1), h1) \<and>
      main fs g2 = Inr (fs(''large.csv'' \<mapsto> c2), h2) \<and>
      length (lines_of c1) = length (lines_of c2) \<and>
      hd (lines_of c1) = hd (lines_of c2) \<and>
      map (\<lambda>l. length (csv_fields l)) (lines_of c1) =
        map (\<lambda>l. length (csv_fields l)) (lines_of c2) \<and>
      map (\<lambda>l. hd (csv_fields l)) (lines_of c1) = map (\<lambda>l. hd (csv_fields l)) (lines_of c2)"
    by (simp only: a b a1 b1 a2 b2 a3 b3 a4 b4 simp_thms)
  then have B: "\<exists>c1 c2 h1 h2.
      main fs g1 = Inr (fs(''large.csv'' \<mapsto> c1), h1) \<and>
      main fs g2 = Inr (fs(''large.csv'' \<mapsto> c2), h2) \<and>
      length (lines_of c1) = length (lines_of c2) \<and>
      hd (lines_of c1) = hd (lines_of c2) \<and>
      map (\<lambda>l. length (csv_fields l)) (lines_of c1) =
        map (\<lambda>l. length (csv_fields l)) (lines_of c2) \<and>
      map (\<lambda>l. hd (csv_fields l)) (lines_of c1) = map (\<lambda>l. hd (csv_fields l)) (lines_of c2)"
    by (intro exI)
  have C: "\<exists>doc. generate_large_json fs = fs(''large.json'' \<mapsto> doc) \<and>
      json_loads doc = Some data"
    using generate_large_json_text [of fs] json_loads_data by blast
  from A B C show ?thesis
    by (intro conjI)
qed

theorem shape_independent_of_draws_witness:
  "\<exists>fs1 fs2 ex s1 s2.
      generate_large_file Map.empty ''large_file.txt'' 50 example_stream = Some (fs1, ex, s1) \<and>
      generate_large_file Map.empty ''large_file.txt'' 50 digit_stream = Some (fs2, ex, s2) \<and>
      getsize fs1 ''large_file.txt'' = getsize fs2 ''large_file.txt'' \<and>
      map length (written s1) = map length (written s2) \<and>
      bytes_written s1 = bytes_written s2"
  using shape_independent_of_draws
    [of Map.empty "''large_file.txt''" 50 example_stream digit_stream]
  by (rule conjunct1)

end
